theory Spec2Isabelle
  imports Main
begin

section \<open>Python strings\<close>

text \<open>
  A Python \<open>str\<close> is modelled as a \<open>string\<close> (a list of characters). Every index the
  source passes to a slice is between 0 and the length of the sliced string, so the slices
  \<open>s[:k]\<close> and \<open>s[k:]\<close> are \<open>take k s\<close> and \<open>drop k s\<close>, and \<open>s[j:k]\<close> is
  \<open>take (k - j) (drop j s)\<close>.
\<close>

definition slice :: "string \<Rightarrow> nat \<Rightarrow> nat \<Rightarrow> string" where
  \<comment> \<open>\<open>s[j:k]\<close> for \<open>0 \<le> j\<close> and \<open>0 \<le> k\<close>; Python clamps both to the length, as take and drop do\<close>
  "slice s j k = take (k - j) (drop j s)"

definition str_mul :: "string \<Rightarrow> nat \<Rightarrow> string" where
  \<comment> \<open>\<open>y * i\<close> for \<open>i \<ge> 0\<close>\<close>
  "str_mul y i = concat (replicate i y)"

definition startswith :: "string \<Rightarrow> string \<Rightarrow> bool" where
  "startswith s t = (take (length t) s = t)"

definition endswith :: "string \<Rightarrow> string \<Rightarrow> bool" where
  "endswith s t = (length t \<le> length s \<and> drop (length s - length t) s = t)"

fun contains :: "string \<Rightarrow> string \<Rightarrow> bool" where
  \<comment> \<open>\<open>t in s\<close>: t occurs in s as a contiguous substring\<close>
  "contains [] t = (t = [])"
| "contains (c # cs) t = (startswith (c # cs) t \<or> contains cs t)"

definition count_char :: "string \<Rightarrow> char \<Rightarrow> nat" where
  \<comment> \<open>\<open>len(re.findall('a', s))\<close> and \<open>s.count('a')\<close> for a one-character pattern\<close>
  "count_char s c = length (filter (\<lambda>d. d = c) s)"

fun digits10 :: "nat \<Rightarrow> string" where
  "digits10 n = (if n < 10 then [char_of (48 + n)]
                 else digits10 (n div 10) @ [char_of (48 + n mod 10)])"

declare digits10.simps [simp del]

definition str_of_int :: "int \<Rightarrow> string" where
  \<comment> \<open>the decimal text an f-string gives for an int\<close>
  "str_of_int k = (if k < 0 then CHR ''-'' # digits10 (nat (- k)) else digits10 (nat k))"


section \<open>The regular expressions of utils.py\<close>

text \<open>
  The module \<open>re\<close> is not part of the repository. Each of the three expressions the source
  uses is modelled by a recogniser of exactly the strings Python's matcher accepts.
\<close>

definition fullmatch_a_star_b_star :: "string \<Rightarrow> bool" where
  \<comment> \<open>\<open>bool(re.fullmatch(r'a*b*', s))\<close>\<close>
  "fullmatch_a_star_b_star s =
     (dropWhile (\<lambda>c. c = CHR ''b'') (dropWhile (\<lambda>c. c = CHR ''a'') s) = [])"

fun fullmatch_ab_star :: "string \<Rightarrow> bool" where
  \<comment> \<open>\<open>bool(re.fullmatch(r'(ab)*', s))\<close>\<close>
  "fullmatch_ab_star [] = True"
| "fullmatch_ab_star [c] = False"
| "fullmatch_ab_star (c # d # cs) = (c = CHR ''a'' \<and> d = CHR ''b'' \<and> fullmatch_ab_star cs)"

definition match_a_plus_b_plus_c_plus :: "string \<Rightarrow> nat option" where
  \<comment> \<open>\<open>re.match(r'^(a+)b+c+$', s)\<close>: None when there is no match, else the length of group 1.
      The three greedy runs cannot give characters back, and \<open>$\<close> matches at the end of the
      string and also just before a newline that ends it.\<close>
  "match_a_plus_b_plus_c_plus s =
     (let g1 = takeWhile (\<lambda>c. c = CHR ''a'') s;
          r1 = dropWhile (\<lambda>c. c = CHR ''a'') s;
          g2 = takeWhile (\<lambda>c. c = CHR ''b'') r1;
          r2 = dropWhile (\<lambda>c. c = CHR ''b'') r1;
          g3 = takeWhile (\<lambda>c. c = CHR ''c'') r2;
          r3 = dropWhile (\<lambda>c. c = CHR ''c'') r2
      in if g1 \<noteq> [] \<and> g2 \<noteq> [] \<and> g3 \<noteq> [] \<and> (r3 = [] \<or> r3 = [CHR 0x0A])
         then Some (length g1) else None)"


section \<open>The membership oracle (utils.py, is\_string\_in\_language)\<close>

definition is_string_in_language :: "string \<Rightarrow> string \<Rightarrow> bool" where
  "is_string_in_language s language_pattern =
     (if language_pattern = ''a^n b^n'' then
        (let a_count = count_char s CHR ''a'';
             b_count = count_char s CHR ''b''
         in startswith s ''a'' \<and> endswith s ''b'' \<and> a_count = b_count \<and> \<not> contains s ''ba'')
      else if language_pattern = ''a^n b^m'' then fullmatch_a_star_b_star s
      else if language_pattern = ''a*b*'' then fullmatch_a_star_b_star s
      else if language_pattern = ''(ab)*'' then fullmatch_ab_star s
      else if language_pattern = ''a^n b^n c^n'' then
        (case match_a_plus_b_plus_c_plus s of
           Some n \<Rightarrow> s = str_mul ''a'' n @ str_mul ''b'' n @ str_mul ''c'' n
         | None \<Rightarrow> False)
      else if language_pattern = ''ww'' then
        (if length s mod 2 = 0
         then (let half = length s div 2 in take half s = drop half s)
         else False)
      else if language_pattern = ''w w_reverse'' then
        (if length s mod 2 = 0
         then (let half = length s div 2 in take half s = rev (drop half s))
         else False)
      else if language_pattern = ''(b*ab*ab*)*'' then
        (let a_count = count_char s CHR ''a''
         in a_count mod 2 = 0 \<and> list_all (\<lambda>c. contains ''ab'' [c]) s)
      else False)"

definition supported_patterns :: "string list" where
  \<comment> \<open>language\_parser.py, \<open>LanguageParser.supported_patterns\<close>\<close>
  "supported_patterns =
     [''a^n b^n'', ''a^n b^m'', ''a*b*'', ''(ab)*'',
      ''a^n b^n c^n'', ''ww'', ''w w_reverse'', ''(b*ab*ab*)*'']"


section \<open>The oracle with its raising operations\<close>

text \<open>
  The operations of \<open>is_string_in_language\<close> that can raise in Python are the attribute
  access \<open>a_match.group(1)\<close>, which raises AttributeError when \<open>re.match\<close> has returned
  None, and \<open>%\<close> and \<open>//\<close>, which raise ZeroDivisionError on a zero divisor. The second
  embedding below is the same function with these operations given their error branch
  and the result type \<open>py_error + bool\<close>, so that "the call returns a boolean" is a
  statement about it. Everything else the function calls (\<open>re.findall\<close>, \<open>re.fullmatch\<close>
  and \<open>re.match\<close> on a constant pattern, \<open>startswith\<close>, \<open>endswith\<close>, \<open>in\<close>, \<open>count\<close>, \<open>len\<close>,
  slices, \<open>all\<close>, \<open>str * int\<close>) returns for every string.
\<close>

datatype py_error = AttributeError | ZeroDivisionError

definition py_bind :: "py_error + 'a \<Rightarrow> ('a \<Rightarrow> py_error + 'b) \<Rightarrow> py_error + 'b" where
  "py_bind m f = (case m of Inl e \<Rightarrow> Inl e | Inr x \<Rightarrow> f x)"

definition py_mod :: "int \<Rightarrow> int \<Rightarrow> py_error + int" where
  \<comment> \<open>\<open>a % b\<close>\<close>
  "py_mod a b = (if b = 0 then Inl ZeroDivisionError else Inr (a mod b))"

definition py_floordiv :: "int \<Rightarrow> int \<Rightarrow> py_error + int" where
  \<comment> \<open>\<open>a // b\<close>\<close>
  "py_floordiv a b = (if b = 0 then Inl ZeroDivisionError else Inr (a div b))"

definition match_object :: "string \<Rightarrow> string option" where
  \<comment> \<open>\<open>re.match(r'^(a+)b+c+$', s)\<close>: the match object, as the text of its group 1, or None\<close>
  "match_object s =
     (let g1 = takeWhile (\<lambda>c. c = CHR ''a'') s;
          r1 = dropWhile (\<lambda>c. c = CHR ''a'') s;
          g2 = takeWhile (\<lambda>c. c = CHR ''b'') r1;
          r2 = dropWhile (\<lambda>c. c = CHR ''b'') r1;
          g3 = takeWhile (\<lambda>c. c = CHR ''c'') r2;
          r3 = dropWhile (\<lambda>c. c = CHR ''c'') r2
      in if g1 \<noteq> [] \<and> g2 \<noteq> [] \<and> g3 \<noteq> [] \<and> (r3 = [] \<or> r3 = [CHR 0x0A])
         then Some g1 else None)"

definition group_1 :: "string option \<Rightarrow> py_error + string" where
  \<comment> \<open>\<open>a_match.group(1)\<close>: on None, Python raises AttributeError\<close>
  "group_1 m = (case m of None \<Rightarrow> Inl AttributeError | Some g \<Rightarrow> Inr g)"

definition is_string_in_language_checked :: "string \<Rightarrow> string \<Rightarrow> py_error + bool" where
  "is_string_in_language_checked s language_pattern =
     (if language_pattern = ''a^n b^n'' then
        (let a_count = count_char s CHR ''a'';
             b_count = count_char s CHR ''b''
         in Inr (startswith s ''a'' \<and> endswith s ''b'' \<and> a_count = b_count
                 \<and> \<not> contains s ''ba''))
      else if language_pattern = ''a^n b^m'' then Inr (fullmatch_a_star_b_star s)
      else if language_pattern = ''a*b*'' then Inr (fullmatch_a_star_b_star s)
      else if language_pattern = ''(ab)*'' then Inr (fullmatch_ab_star s)
      else if language_pattern = ''a^n b^n c^n'' then
        (let a_match = match_object s
         in if a_match \<noteq> None
            then py_bind (group_1 a_match) (\<lambda>g.
                   let n = length g
                   in Inr (s = str_mul ''a'' n @ str_mul ''b'' n @ str_mul ''c'' n))
            else Inr False)
      else if language_pattern = ''ww'' then
        py_bind (py_mod (int (length s)) 2) (\<lambda>r.
          if r = 0
          then py_bind (py_floordiv (int (length s)) 2) (\<lambda>half.
                 Inr (take (nat half) s = drop (nat half) s))
          else Inr False)
      else if language_pattern = ''w w_reverse'' then
        py_bind (py_mod (int (length s)) 2) (\<lambda>r.
          if r = 0
          then py_bind (py_floordiv (int (length s)) 2) (\<lambda>half.
                 Inr (take (nat half) s = rev (drop (nat half) s)))
          else Inr False)
      else if language_pattern = ''(b*ab*ab*)*'' then
        (let a_count = count_char s CHR ''a''
         in py_bind (py_mod (int a_count) 2) (\<lambda>r.
              Inr (r = 0 \<and> list_all (\<lambda>c. contains ''ab'' [c]) s)))
      else Inr False)"


section \<open>Decompositions, iteration records and verdicts (pumping\_engine.py)\<close>

text \<open>
  The dictionaries of the source have fixed keys, so each is a record. The key \<open>error\<close> is
  present only on the error path (\<open>None\<close> when absent), and the initial empty dictionary
  under \<open>decomposition\<close> is \<open>None\<close>.
\<close>

record reg_decomp =
  dx :: string
  dy :: string
  dz :: string
  reg_split_info :: string

record cfl_decomp =
  cu :: string
  cv :: string
  cw :: string
  cx :: string
  cy :: string
  cfl_split_info :: string

record reg_parts =
  px :: string
  py :: string
  pz :: string
  y_repetitions :: nat

record cfl_parts =
  pu :: string
  pv :: string
  pw :: string
  pxc :: string
  pyc :: string
  v_repetitions :: nat
  x_repetitions :: nat

record 'p iteration =
  iter_i :: nat
  pumped_string :: string
  in_language :: bool
  parts :: 'p

record ('d, 'p) verdict =
  subject :: string
  pumping_length :: int
  decomposition :: "'d option"
  iterations :: "'p iteration list"
  lemma_holds :: bool
  language_type :: string
  error :: "string option"

definition py_range :: "nat \<Rightarrow> int \<Rightarrow> nat list" where
  \<comment> \<open>\<open>range(lo, hi)\<close> for \<open>lo \<ge> 0\<close>: empty when \<open>hi \<le> lo\<close>, also for a negative \<open>hi\<close>\<close>
  "py_range lo hi = [lo ..< nat hi]"

definition initial_result :: "string \<Rightarrow> int \<Rightarrow> ('d, 'p) verdict" where
  "initial_result input_string p =
     \<lparr>subject = input_string, pumping_length = p, decomposition = None, iterations = [],
      lemma_holds = False, language_type = ''Unknown'', error = None\<rparr>"

definition length_error :: "nat \<Rightarrow> int \<Rightarrow> string" where
  "length_error n p =
     ''String length ('' @ str_of_int (int n) @ '') is less than pumping length (''
       @ str_of_int p @ '')''"


section \<open>The decomposition generators\<close>

definition generate_regular_decompositions :: "string \<Rightarrow> int \<Rightarrow> reg_decomp list" where
  "generate_regular_decompositions s p =
     (let n = length s in
      concat (map (\<lambda>split_point.
        concat (map (\<lambda>y_length.
          (let x = take (split_point - y_length) s;
               y = slice s (split_point - y_length) split_point;
               z = drop split_point s
           in if length y > 0 \<and> int (length (x @ y)) \<le> p
              then [\<lparr>dx = x, dy = y, dz = z,
                     reg_split_info = ''|xy| = '' @ str_of_int (int (length (x @ y)))
                        @ '', |y| = '' @ str_of_int (int (length y))\<rparr>]
              else []))
          (py_range 1 (int split_point + 1))))
        (py_range 1 (min p (int n) + 1))))"

definition cfl_enumeration :: "string \<Rightarrow> int \<Rightarrow> cfl_decomp list" where
  \<comment> \<open>the list \<open>decompositions\<close> when the four loops have ended\<close>
  "cfl_enumeration s p =
     (let n = length s in
      concat (map (\<lambda>vwx_start.
        concat (map (\<lambda>vwx_end.
          (let vwx = slice s vwx_start vwx_end in
           concat (map (\<lambda>v_end.
             concat (map (\<lambda>x_start.
               (let v = take v_end vwx;
                    w = slice vwx v_end x_start;
                    x = drop x_start vwx
                in if length (v @ x) > 0
                   then (let u = take vwx_start s;
                             y = drop vwx_end s
                         in [\<lparr>cu = u, cv = v, cw = w, cx = x, cy = y,
                               cfl_split_info = ''|vwx| = '' @ str_of_int (int (length vwx))
                                  @ '', |vx| = '' @ str_of_int (int (length (v @ x)))\<rparr>])
                   else []))
               (py_range v_end (int (length vwx)))))
             (py_range 1 (int (length vwx))))))
          (py_range (vwx_start + 1) (min (int vwx_start + p) (int n) + 1))))
        (py_range 0 (int n))))"

definition generate_cfl_decompositions :: "string \<Rightarrow> int \<Rightarrow> cfl_decomp list" where
  \<comment> \<open>\<open>return decompositions[:10]\<close>\<close>
  "generate_cfl_decompositions s p = take 10 (cfl_enumeration s p)"


section \<open>The pumping verifier and the search loops\<close>

fun reg_iterations ::
  "string \<Rightarrow> reg_decomp \<Rightarrow> nat list \<Rightarrow> reg_parts iteration list \<times> bool
     \<Rightarrow> reg_parts iteration list \<times> bool" where
  \<comment> \<open>the loop over \<open>i\<close>; the state is the list \<open>iterations\<close> and the flag \<open>valid_for_all_i\<close>\<close>
  "reg_iterations language_pattern decomp [] st = st"
| "reg_iterations language_pattern decomp (i # rest) (its, valid_for_all_i) =
     (let pumped = dx decomp @ str_mul (dy decomp) i @ dz decomp;
          is_in_language = is_string_in_language pumped language_pattern;
          its' = its @ [\<lparr>iter_i = i, pumped_string = pumped, in_language = is_in_language,
                          parts = \<lparr>px = dx decomp, py = dy decomp, pz = dz decomp,
                                   y_repetitions = i\<rparr>\<rparr>]
      in reg_iterations language_pattern decomp rest
           (its', if \<not> is_in_language then False else valid_for_all_i))"

definition reg_test :: "string \<Rightarrow> reg_decomp \<Rightarrow> reg_parts iteration list \<times> bool" where
  \<comment> \<open>one candidate: \<open>iterations = []\<close>, \<open>valid_for_all_i = True\<close>, then \<open>for i in [0, 1, 2, 3, 5]\<close>\<close>
  "reg_test language_pattern decomp =
     reg_iterations language_pattern decomp [0, 1, 2, 3, 5] ([], True)"

fun reg_search ::
  "string \<Rightarrow> reg_decomp list \<Rightarrow> (reg_decomp, reg_parts) verdict
     \<Rightarrow> (reg_decomp, reg_parts) verdict" where
  \<comment> \<open>\<open>for decomp in decompositions\<close>; the \<open>break\<close> is the branch without a recursive call\<close>
  "reg_search language_pattern [] result = result"
| "reg_search language_pattern (decomp # rest) result =
     (case reg_test language_pattern decomp of (its, valid_for_all_i) \<Rightarrow>
        if valid_for_all_i
        then result\<lparr>decomposition := Some decomp, iterations := its,
                    lemma_holds := True, language_type := ''Possibly Regular''\<rparr>
        else reg_search language_pattern rest
               (if iterations result = []
                then result\<lparr>decomposition := Some decomp, iterations := its,
                            lemma_holds := False, language_type := ''Not Regular''\<rparr>
                else result))"

definition apply_regular_pumping_lemma ::
  "string \<Rightarrow> string \<Rightarrow> int \<Rightarrow> (reg_decomp, reg_parts) verdict" where
  "apply_regular_pumping_lemma language_pattern input_string p =
     (let result = initial_result input_string p;
          n = length input_string
      in if int n < p then result\<lparr>error := Some (length_error n p)\<rparr>
         else reg_search language_pattern
                (generate_regular_decompositions input_string p) result)"

fun cfl_iterations ::
  "string \<Rightarrow> cfl_decomp \<Rightarrow> nat list \<Rightarrow> cfl_parts iteration list \<times> bool
     \<Rightarrow> cfl_parts iteration list \<times> bool" where
  "cfl_iterations language_pattern decomp [] st = st"
| "cfl_iterations language_pattern decomp (i # rest) (its, valid_for_all_i) =
     (let pumped = cu decomp @ str_mul (cv decomp) i @ cw decomp @ str_mul (cx decomp) i
                     @ cy decomp;
          is_in_language = is_string_in_language pumped language_pattern;
          its' = its @ [\<lparr>iter_i = i, pumped_string = pumped, in_language = is_in_language,
                          parts = \<lparr>pu = cu decomp, pv = cv decomp, pw = cw decomp,
                                   pxc = cx decomp, pyc = cy decomp,
                                   v_repetitions = i, x_repetitions = i\<rparr>\<rparr>]
      in cfl_iterations language_pattern decomp rest
           (its', if \<not> is_in_language then False else valid_for_all_i))"

definition cfl_test :: "string \<Rightarrow> cfl_decomp \<Rightarrow> cfl_parts iteration list \<times> bool" where
  \<comment> \<open>one candidate: \<open>for i in [0, 1, 2, 3]\<close>\<close>
  "cfl_test language_pattern decomp =
     cfl_iterations language_pattern decomp [0, 1, 2, 3] ([], True)"

fun cfl_search ::
  "string \<Rightarrow> cfl_decomp list \<Rightarrow> (cfl_decomp, cfl_parts) verdict
     \<Rightarrow> (cfl_decomp, cfl_parts) verdict" where
  "cfl_search language_pattern [] result = result"
| "cfl_search language_pattern (decomp # rest) result =
     (case cfl_test language_pattern decomp of (its, valid_for_all_i) \<Rightarrow>
        if valid_for_all_i
        then result\<lparr>decomposition := Some decomp, iterations := its,
                    lemma_holds := True, language_type := ''Possibly Context-Free''\<rparr>
        else cfl_search language_pattern rest
               (if iterations result = []
                then result\<lparr>decomposition := Some decomp, iterations := its,
                            lemma_holds := False, language_type := ''Not Context-Free''\<rparr>
                else result))"

definition apply_cfl_pumping_lemma ::
  "string \<Rightarrow> string \<Rightarrow> int \<Rightarrow> (cfl_decomp, cfl_parts) verdict" where
  "apply_cfl_pumping_lemma language_pattern input_string p =
     (let result = initial_result input_string p;
          n = length input_string
      in if int n < p then result\<lparr>error := Some (length_error n p)\<rparr>
         else cfl_search language_pattern
                (generate_cfl_decompositions input_string p) result)"


section \<open>The record of one repetition\<close>

text \<open>
  The dictionary the loop over \<open>i\<close> appends for one repetition count, named so that the
  lemmas about the loops can refer to it.
\<close>

definition reg_record :: "string \<Rightarrow> reg_decomp \<Rightarrow> nat \<Rightarrow> reg_parts iteration" where
  "reg_record pat d i =
     \<lparr>iter_i = i, pumped_string = dx d @ str_mul (dy d) i @ dz d,
      in_language = is_string_in_language (dx d @ str_mul (dy d) i @ dz d) pat,
      parts = \<lparr>px = dx d, py = dy d, pz = dz d, y_repetitions = i\<rparr>\<rparr>"

definition cfl_record :: "string \<Rightarrow> cfl_decomp \<Rightarrow> nat \<Rightarrow> cfl_parts iteration" where
  "cfl_record pat d i =
     \<lparr>iter_i = i,
      pumped_string = cu d @ str_mul (cv d) i @ cw d @ str_mul (cx d) i @ cy d,
      in_language =
        is_string_in_language (cu d @ str_mul (cv d) i @ cw d @ str_mul (cx d) i @ cy d) pat,
      parts = \<lparr>pu = cu d, pv = cv d, pw = cw d, pxc = cx d, pyc = cy d,
               v_repetitions = i, x_repetitions = i\<rparr>\<rparr>"


section \<open>The canonical order of the context-free splits\<close>

text \<open>
  The spec describes the enumeration of the context-free generator by the windows and
  boundaries it ranges over and by their order. \<open>cfl_window\<close>, \<open>quad_less\<close> and
  \<open>canonical_cfl_split\<close> follow that description: the admissible quadruples (window
  start, window end, v-boundary, x-boundary), their order, and the split a quadruple
  stands for. \<open>cfl_indices\<close> lists the quadruples the four loops of the source visit; the
  lemmas below compare the two.
\<close>

definition indices_x :: "nat \<Rightarrow> nat \<Rightarrow> nat \<Rightarrow> (nat \<times> nat \<times> nat \<times> nat) list" where
  "indices_x st en ve = map (\<lambda>xs. (st, en, ve, xs)) (py_range ve (int (en - st)))"

definition indices_v :: "nat \<Rightarrow> nat \<Rightarrow> (nat \<times> nat \<times> nat \<times> nat) list" where
  "indices_v st en = concat (map (indices_x st en) (py_range 1 (int (en - st))))"

definition indices_end :: "string \<Rightarrow> int \<Rightarrow> nat \<Rightarrow> (nat \<times> nat \<times> nat \<times> nat) list" where
  "indices_end s p st =
     concat (map (indices_v st) (py_range (st + 1) (min (int st + p) (int (length s)) + 1)))"

definition cfl_indices :: "string \<Rightarrow> int \<Rightarrow> (nat \<times> nat \<times> nat \<times> nat) list" where
  "cfl_indices s p = concat (map (indices_end s p) (py_range 0 (int (length s))))"

definition canonical_cfl_split :: "string \<Rightarrow> nat \<times> nat \<times> nat \<times> nat \<Rightarrow> cfl_decomp" where
  \<comment> \<open>the split of \<open>s\<close> at window \<open>[st, en)\<close> with \<open>v\<close> the first \<open>ve\<close> characters of the window
      and \<open>x\<close> its characters from \<open>xs\<close> on, each part cut from \<open>s\<close> itself\<close>
  "canonical_cfl_split s =
     (\<lambda>(st, en, ve, xs).
        \<lparr>cu = slice s 0 st, cv = slice s st (st + ve), cw = slice s (st + ve) (st + xs),
         cx = slice s (st + xs) en, cy = drop en s,
         cfl_split_info = ''|vwx| = '' @ str_of_int (int (en - st))
            @ '', |vx| = '' @ str_of_int (int (ve + (en - (st + xs))))\<rparr>)"

definition cfl_window :: "string \<Rightarrow> int \<Rightarrow> nat \<times> nat \<times> nat \<times> nat \<Rightarrow> bool" where
  \<comment> \<open>\<open>0 \<le> start < |s|\<close>, \<open>start < end \<le> min(start + p, |s|)\<close>,
      \<open>1 \<le> v_end < window length\<close>, \<open>v_end \<le> x_start < window length\<close>\<close>
  "cfl_window s p =
     (\<lambda>(st, en, ve, xs).
        st < length s \<and> st < en \<and> int en \<le> min (int st + p) (int (length s))
        \<and> 1 \<le> ve \<and> ve < en - st \<and> ve \<le> xs \<and> xs < en - st)"

definition quad_less :: "nat \<times> nat \<times> nat \<times> nat \<Rightarrow> nat \<times> nat \<times> nat \<times> nat \<Rightarrow> bool" where
  \<comment> \<open>ascending window start, then window end, then v-boundary, then x-boundary\<close>
  "quad_less =
     (\<lambda>(a, b, c, d) (a', b', c', d').
        a < a' \<or> (a = a' \<and> (b < b' \<or> (b = b' \<and> (c < c' \<or> (c = c' \<and> d < d'))))))"


section \<open>Slices and ranges\<close>

lemma take_slice_drop: "j \<le> k \<Longrightarrow> take j s @ slice s j k @ drop k s = s"
proof -
  assume jk: "j \<le> k"
  have "take j s @ take (k - j) (drop j s) = take (j + (k - j)) s"
    by (simp only: take_add)
  with jk have "take j s @ slice s j k = take k s"
    by (simp add: slice_def)
  then have "(take j s @ slice s j k) @ drop k s = s"
    by simp
  then show ?thesis by simp
qed

lemma length_slice: "length (slice s j k) = min (k - j) (length s - j)"
  by (simp add: slice_def)

lemma in_py_range: "k \<in> set (py_range lo hi) \<longleftrightarrow> lo \<le> k \<and> int k < hi"
  by (auto simp: py_range_def)


section \<open>The regular generator\<close>

lemma reg_decomp_inv:
  assumes "d \<in> set (generate_regular_decompositions s p)"
  shows "dx d @ dy d @ dz d = s \<and> 0 < length (dy d)
           \<and> int (length (dx d) + length (dy d)) \<le> p"
proof -
  from assms obtain sp yl where
    d: "dx d = take (sp - yl) s" "dy d = slice s (sp - yl) sp" "dz d = drop sp s" and
    ok: "0 < length (dy d)" "int (length (dx d @ dy d)) \<le> p"
    by (auto simp: generate_regular_decompositions_def Let_def split: if_splits)
  have "sp - yl \<le> sp" by simp
  then have "dx d @ dy d @ dz d = s"
    unfolding d by (rule take_slice_drop)
  with ok show ?thesis by simp
qed

lemma reg_decomp_empty: "p = 0 \<or> s = [] \<Longrightarrow> generate_regular_decompositions s p = []"
  by (auto simp: generate_regular_decompositions_def py_range_def)

text \<open>
  C4. Every decomposition the regular generator returns for a string \<open>s\<close> and an integer
  \<open>p\<close> splits \<open>s\<close> (\<open>x + y + z = s\<close>), has a non-empty \<open>y\<close> and has \<open>|x| + |y| \<le> p\<close>; the
  generator returns the empty list when \<open>p = 0\<close> or \<open>s\<close> is empty.
\<close>

theorem regular_decompositions_admissible:
  "(\<forall>d \<in> set (generate_regular_decompositions s p).
       dx d @ dy d @ dz d = s \<and> 0 < length (dy d) \<and> int (length (dx d) + length (dy d)) \<le> p)
   \<and> (p = 0 \<or> s = [] \<longrightarrow> generate_regular_decompositions s p = [])"
  using reg_decomp_inv reg_decomp_empty by blast

theorem regular_decompositions_admissible_witness:
  "generate_regular_decompositions ''abab'' 2 \<noteq> []
   \<and> list_all (\<lambda>d. dx d @ dy d @ dz d = ''abab'' \<and> 0 < length (dy d)
                     \<and> int (length (dx d) + length (dy d)) \<le> 2)
         (generate_regular_decompositions ''abab'' 2)
   \<and> generate_regular_decompositions ''abab'' 0 = []
   \<and> generate_regular_decompositions [] 2 = []"
proof -
  have ne: "generate_regular_decompositions ''abab'' 2 \<noteq> []"
    by code_simp
  from ne regular_decompositions_admissible [of "''abab''" 2]
    regular_decompositions_admissible [of "''abab''" 0]
    regular_decompositions_admissible [of "[]" 2]
  show ?thesis by (simp add: list_all_iff)
qed


section \<open>The context-free generator\<close>

lemma cfl_enum_inv:
  assumes "d \<in> set (cfl_enumeration s p)"
  shows "cu d @ cv d @ cw d @ cx d @ cy d = s \<and> 0 < length (cv d) + length (cx d)
           \<and> int (length (cv d) + length (cw d) + length (cx d)) \<le> p"
proof -
  from assms obtain st en ve xs where
    en: "en \<in> set (py_range (st + 1) (min (int st + p) (int (length s)) + 1))" and
    xs: "xs \<in> set (py_range ve (int (length (slice s st en))))" and
    d: "cu d = take st s" "cv d = take ve (slice s st en)"
       "cw d = slice (slice s st en) ve xs"
       "cx d = drop xs (slice s st en)" "cy d = drop en s" and
    ok: "0 < length (cv d @ cx d)"
    by (auto simp: cfl_enumeration_def Let_def split: if_splits)
  from en have sten: "st \<le> en" and enp: "int en \<le> int st + p"
    by (auto simp: in_py_range)
  from xs have vexs: "ve \<le> xs" by (simp add: in_py_range)
  have vwx: "cv d @ cw d @ cx d = slice s st en"
    unfolding d using vexs by (rule take_slice_drop)
  have "cu d @ slice s st en @ cy d = s"
    unfolding d using sten by (rule take_slice_drop)
  with vwx have whole: "cu d @ cv d @ cw d @ cx d @ cy d = s"
    by (metis append.assoc)
  have "length (cv d) + length (cw d) + length (cx d) = length (slice s st en)"
    using arg_cong [OF vwx, of length] by simp
  also have "\<dots> \<le> en - st" by (simp add: length_slice)
  finally have "int (length (cv d) + length (cw d) + length (cx d)) \<le> p"
    using enp sten by linarith
  with whole ok show ?thesis by simp
qed

lemma cfl_gen_subset: "set (generate_cfl_decompositions s p) \<subseteq> set (cfl_enumeration s p)"
  by (simp add: generate_cfl_decompositions_def set_take_subset)

lemma cfl_gen_inv:
  assumes "d \<in> set (generate_cfl_decompositions s p)"
  shows "cu d @ cv d @ cw d @ cx d @ cy d = s \<and> 0 < length (cv d) + length (cx d)
           \<and> int (length (cv d) + length (cw d) + length (cx d)) \<le> p"
  using assms cfl_gen_subset cfl_enum_inv by blast

lemma in_indices_x:
  "q \<in> set (indices_x st en ve) \<longleftrightarrow>
     (\<exists>xs. q = (st, en, ve, xs) \<and> ve \<le> xs \<and> xs < en - st)"
  by (auto simp: indices_x_def in_py_range)

lemma in_indices_v:
  "q \<in> set (indices_v st en) \<longleftrightarrow>
     (\<exists>ve xs. q = (st, en, ve, xs) \<and> 1 \<le> ve \<and> ve < en - st \<and> ve \<le> xs \<and> xs < en - st)"
  by (auto simp: indices_v_def in_indices_x in_py_range)

lemma in_indices_end:
  "q \<in> set (indices_end s p st) \<longleftrightarrow>
     (\<exists>en ve xs. q = (st, en, ve, xs) \<and> st < en
        \<and> int en \<le> min (int st + p) (int (length s))
        \<and> 1 \<le> ve \<and> ve < en - st \<and> ve \<le> xs \<and> xs < en - st)"
  by (auto simp: indices_end_def in_indices_v in_py_range)

lemma in_cfl_indices: "q \<in> set (cfl_indices s p) \<longleftrightarrow> cfl_window s p q"
  by (cases q) (auto simp: cfl_indices_def in_indices_end in_py_range cfl_window_def)

lemma sorted_concat_tag:
  fixes xs :: "nat list"
  assumes "sorted_wrt (<) xs"
    and "\<And>x. x \<in> set xs \<Longrightarrow> sorted_wrt R (f x)"
    and "\<And>x y a b. x < y \<Longrightarrow> a \<in> set (f x) \<Longrightarrow> b \<in> set (f y) \<Longrightarrow> R a b"
  shows "sorted_wrt R (concat (map f xs))"
  using assms
proof (induction xs)
  case Nil
  then show ?case by simp
next
  case (Cons x xs)
  have "sorted_wrt R (concat (map f xs))"
    using Cons.prems by (intro Cons.IH) auto
  moreover have "sorted_wrt R (f x)" using Cons.prems(2) by simp
  moreover have "\<forall>a \<in> set (f x). \<forall>b \<in> set (concat (map f xs)). R a b"
    using Cons.prems(1,3) by auto
  ultimately show ?case by (simp add: sorted_wrt_append)
qed

lemma sorted_py_range: "sorted_wrt (<) (py_range lo hi)"
  by (simp add: py_range_def)

lemma sorted_indices_x: "sorted_wrt quad_less (indices_x st en ve)"
  unfolding indices_x_def sorted_wrt_map
  by (rule sorted_wrt_mono_rel [OF _ sorted_py_range]) (simp add: quad_less_def)

lemma sorted_indices_v: "sorted_wrt quad_less (indices_v st en)"
  unfolding indices_v_def
  by (rule sorted_concat_tag [OF sorted_py_range sorted_indices_x])
     (auto simp: in_indices_x quad_less_def)

lemma sorted_indices_end: "sorted_wrt quad_less (indices_end s p st)"
  unfolding indices_end_def
  by (rule sorted_concat_tag [OF sorted_py_range sorted_indices_v])
     (auto simp: in_indices_v quad_less_def)

lemma sorted_cfl_indices: "sorted_wrt quad_less (cfl_indices s p)"
  unfolding cfl_indices_def
  by (rule sorted_concat_tag [OF sorted_py_range sorted_indices_end])
     (auto simp: in_indices_end quad_less_def)

lemma concat_map_map_cong:
  "(\<And>x. x \<in> set xs \<Longrightarrow> f x = map h (g x)) \<Longrightarrow> concat (map f xs) = map h (concat (map g xs))"
  by (induction xs) simp_all

lemma concat_map_single_cong:
  "(\<And>x. x \<in> set xs \<Longrightarrow> f x = [h (k x)]) \<Longrightarrow> concat (map f xs) = map h (map k xs)"
  by (induction xs) simp_all

lemma window_parts:
  assumes "st < en" and "en \<le> length s" and "ve \<le> xs" and "xs < en - st"
  shows "take ve (slice s st en) = slice s st (st + ve)"
    and "slice (slice s st en) ve xs = slice s (st + ve) (st + xs)"
    and "drop xs (slice s st en) = slice s (st + xs) en"
    and "length (slice s st en) = en - st"
    and "length (take ve (slice s st en) @ drop xs (slice s st en)) = ve + (en - (st + xs))"
proof -
  from assms have m1: "min ve (en - st) = ve" by simp
  from assms have m2: "min (xs - ve) (en - (st + ve)) = xs - ve" by simp
  from assms have m3: "min (en - st) (length s - st) = en - st" by simp
  from assms have a1: "st + ve - st = ve" and a2: "st + xs - (st + ve) = xs - ve"
    and a3: "en - st - xs = en - (st + xs)" by simp_all
  show p1: "take ve (slice s st en) = slice s st (st + ve)"
    by (simp add: slice_def m1 a1)
  show "slice (slice s st en) ve xs = slice s (st + ve) (st + xs)"
    by (simp add: slice_def drop_take m2 a2 add.commute)
  show p3: "drop xs (slice s st en) = slice s (st + xs) en"
    by (simp add: slice_def drop_take a3 add.commute)
  show "length (slice s st en) = en - st"
    by (simp add: length_slice m3)
  from assms have "min ve (length s - st) = ve"
    and "min (en - (st + xs)) (length s - (st + xs)) = en - (st + xs)" by simp_all
  then show "length (take ve (slice s st en) @ drop xs (slice s st en)) = ve + (en - (st + xs))"
    unfolding p1 p3 by (simp add: length_slice)
qed

lemma split_eq:
  assumes "st < en" and "en \<le> length s" and "1 \<le> ve" and "ve \<le> xs" and "xs < en - st"
  shows "(if 0 < length (take ve (slice s st en) @ drop xs (slice s st en))
          then [\<lparr>cu = take st s, cv = take ve (slice s st en),
                  cw = slice (slice s st en) ve xs, cx = drop xs (slice s st en),
                  cy = drop en s,
                  cfl_split_info = ''|vwx| = '' @ str_of_int (int (length (slice s st en)))
                    @ '', |vx| = '' @ str_of_int
                        (int (length (take ve (slice s st en) @ drop xs (slice s st en))))\<rparr>]
          else [])
         = [canonical_cfl_split s (st, en, ve, xs)]"
proof -
  note w = window_parts [OF assms(1,2,4,5)]
  have u: "slice s 0 st = take st s" by (simp add: slice_def)
  from assms(3) have pos: "0 < ve + (en - (st + xs))" by simp
  show ?thesis
    unfolding w(5) w(4)
    unfolding w(1) w(2) w(3) canonical_cfl_split_def prod.case u
    using pos by simp
qed

lemma window_length:
  "en \<in> set (py_range (st + 1) (min (int st + p) (int (length s)) + 1))
     \<Longrightarrow> length (slice s st en) = en - st"
  by (auto simp: in_py_range length_slice)

lemma cfl_enumeration_canonical:
  "cfl_enumeration s p = map (canonical_cfl_split s) (cfl_indices s p)"
  unfolding cfl_enumeration_def Let_def cfl_indices_def
proof (rule concat_map_map_cong)
  fix st
  show "concat (map (\<lambda>en.
          concat (map (\<lambda>ve.
            concat (map (\<lambda>xs.
              if 0 < length (take ve (slice s st en) @ drop xs (slice s st en))
              then [\<lparr>cu = take st s, cv = take ve (slice s st en),
                      cw = slice (slice s st en) ve xs, cx = drop xs (slice s st en),
                      cy = drop en s,
                      cfl_split_info = ''|vwx| = '' @ str_of_int (int (length (slice s st en)))
                        @ '', |vx| = '' @ str_of_int
                            (int (length (take ve (slice s st en) @ drop xs (slice s st en))))\<rparr>]
              else [])
              (py_range ve (int (length (slice s st en))))))
            (py_range 1 (int (length (slice s st en))))))
          (py_range (st + 1) (min (int st + p) (int (length s)) + 1)))
        = map (canonical_cfl_split s) (indices_end s p st)"
    unfolding indices_end_def
  proof (rule concat_map_map_cong)
    fix en
    assume en: "en \<in> set (py_range (st + 1) (min (int st + p) (int (length s)) + 1))"
    then have sten: "st < en" and enn: "en \<le> length s" by (auto simp: in_py_range)
    note len = window_length [OF en]
    show "concat (map (\<lambda>ve.
            concat (map (\<lambda>xs.
              if 0 < length (take ve (slice s st en) @ drop xs (slice s st en))
              then [\<lparr>cu = take st s, cv = take ve (slice s st en),
                      cw = slice (slice s st en) ve xs, cx = drop xs (slice s st en),
                      cy = drop en s,
                      cfl_split_info = ''|vwx| = '' @ str_of_int (int (length (slice s st en)))
                        @ '', |vx| = '' @ str_of_int
                            (int (length (take ve (slice s st en) @ drop xs (slice s st en))))\<rparr>]
              else [])
              (py_range ve (int (length (slice s st en))))))
            (py_range 1 (int (length (slice s st en)))))
          = map (canonical_cfl_split s) (indices_v st en)"
      unfolding indices_v_def len [symmetric]
    proof (rule concat_map_map_cong)
      fix ve
      assume "ve \<in> set (py_range 1 (int (length (slice s st en))))"
      then have ve: "1 \<le> ve" by (simp add: in_py_range)
      show "concat (map (\<lambda>xs.
              if 0 < length (take ve (slice s st en) @ drop xs (slice s st en))
              then [\<lparr>cu = take st s, cv = take ve (slice s st en),
                      cw = slice (slice s st en) ve xs, cx = drop xs (slice s st en),
                      cy = drop en s,
                      cfl_split_info = ''|vwx| = '' @ str_of_int (int (length (slice s st en)))
                        @ '', |vx| = '' @ str_of_int
                            (int (length (take ve (slice s st en) @ drop xs (slice s st en))))\<rparr>]
              else [])
              (py_range ve (int (length (slice s st en)))))
            = map (canonical_cfl_split s) (indices_x st en ve)"
        unfolding indices_x_def len [symmetric]
      proof (rule concat_map_single_cong)
        fix xs
        assume "xs \<in> set (py_range ve (int (length (slice s st en))))"
        then have "ve \<le> xs" and "xs < en - st" by (simp_all add: in_py_range len)
        with sten enn ve show
          "(if 0 < length (take ve (slice s st en) @ drop xs (slice s st en))
              then [\<lparr>cu = take st s, cv = take ve (slice s st en),
                      cw = slice (slice s st en) ve xs, cx = drop xs (slice s st en),
                      cy = drop en s,
                      cfl_split_info = ''|vwx| = '' @ str_of_int (int (length (slice s st en)))
                        @ '', |vx| = '' @ str_of_int
                            (int (length (take ve (slice s st en) @ drop xs (slice s st en))))\<rparr>]
              else [])
           = [canonical_cfl_split s (st, en, ve, xs)]"
          by (rule split_eq)
      qed
    qed
  qed
qed

lemma set_cfl_indices: "set (cfl_indices s p) = {q. cfl_window s p q}"
  by (auto simp: in_cfl_indices)

lemma quad_less_irrefl: "\<not> quad_less q q"
  by (cases q) (simp add: quad_less_def)

lemma quad_less_trans: "quad_less q r \<Longrightarrow> quad_less r t \<Longrightarrow> quad_less q t"
  by (cases q, cases r, cases t) (auto simp: quad_less_def)

lemma sorted_quad_unique:
  assumes "sorted_wrt quad_less xs" and "sorted_wrt quad_less ys" and "set xs = set ys"
  shows "xs = ys"
  using assms
proof (induction xs arbitrary: ys)
  case Nil
  then show ?case by simp
next
  case (Cons x xs)
  from Cons.prems(3) obtain y ys' where ys: "ys = y # ys'" by (cases ys) auto
  from Cons.prems(1) have xlt: "\<forall>a \<in> set xs. quad_less x a" and sx: "sorted_wrt quad_less xs"
    by simp_all
  from Cons.prems(2) ys have ylt: "\<forall>a \<in> set ys'. quad_less y a"
    and sy: "sorted_wrt quad_less ys'" by simp_all
  have xy: "x = y"
  proof (rule ccontr)
    assume ne: "x \<noteq> y"
    from Cons.prems(3) ys ne have "x \<in> set ys'" and "y \<in> set xs" by auto
    with xlt ylt have "quad_less y x" and "quad_less x y" by auto
    then have "quad_less x x" by (rule quad_less_trans [rotated])
    then show False by (simp add: quad_less_irrefl)
  qed
  from xlt have "x \<notin> set xs" using quad_less_irrefl by blast
  moreover from ylt have "y \<notin> set ys'" using quad_less_irrefl by blast
  ultimately have "set xs = set ys'" using Cons.prems(3) ys xy by auto
  from Cons.IH [OF sx sy this] xy ys show ?case by simp
qed

lemma canonical_indices:
  assumes "sorted_wrt quad_less idx" and "set idx = {q. cfl_window s p q}"
  shows "idx = cfl_indices s p"
  using assms(1) sorted_cfl_indices
  by (rule sorted_quad_unique) (simp add: assms(2) set_cfl_indices)

text \<open>
  C5. Every decomposition the context-free generator returns for a string \<open>s\<close> and an
  integer \<open>p\<close> splits \<open>s\<close> (\<open>u + v + w + x + y = s\<close>), has \<open>|v| + |x| > 0\<close> and
  \<open>|v| + |w| + |x| \<le> p\<close>, and the returned list has at most 10 elements. The list the
  four loops build is the canonical enumeration: there is a list of the admissible
  quadruples in ascending order (window start, window end, v-boundary, x-boundary), and
  for any such list \<open>idx\<close> the loops build the splits of \<open>idx\<close> in that order, and the
  generator returns the splits of the first \<open>min 10 total\<close> quadruples of \<open>idx\<close>, where
  \<open>total\<close> is the length of \<open>idx\<close>.
\<close>

theorem cfl_decompositions_admissible_prefix:
  "(\<forall>d \<in> set (generate_cfl_decompositions s p).
       cu d @ cv d @ cw d @ cx d @ cy d = s \<and> 0 < length (cv d) + length (cx d)
       \<and> int (length (cv d) + length (cw d) + length (cx d)) \<le> p)
   \<and> length (generate_cfl_decompositions s p) \<le> 10
   \<and> generate_cfl_decompositions s p
       = take (min 10 (length (cfl_enumeration s p))) (cfl_enumeration s p)
   \<and> (\<exists>idx. sorted_wrt quad_less idx \<and> set idx = {q. cfl_window s p q})
   \<and> (\<forall>idx. sorted_wrt quad_less idx \<and> set idx = {q. cfl_window s p q} \<longrightarrow>
         cfl_enumeration s p = map (canonical_cfl_split s) idx
         \<and> generate_cfl_decompositions s p
             = map (canonical_cfl_split s) (take (min 10 (length idx)) idx))"
proof -
  have len: "length (generate_cfl_decompositions s p) \<le> 10"
    by (simp add: generate_cfl_decompositions_def)
  have pre: "generate_cfl_decompositions s p
       = take (min 10 (length (cfl_enumeration s p))) (cfl_enumeration s p)"
    by (simp add: generate_cfl_decompositions_def min_def)
  have ex: "\<exists>idx. sorted_wrt quad_less idx \<and> set idx = {q. cfl_window s p q}"
    using sorted_cfl_indices set_cfl_indices by blast
  have canon: "cfl_enumeration s p = map (canonical_cfl_split s) idx
         \<and> generate_cfl_decompositions s p
             = map (canonical_cfl_split s) (take (min 10 (length idx)) idx)"
    if "sorted_wrt quad_less idx \<and> set idx = {q. cfl_window s p q}" for idx
  proof -
    from that have idx: "idx = cfl_indices s p" by (simp add: canonical_indices)
    have e: "cfl_enumeration s p = map (canonical_cfl_split s) idx"
      unfolding idx by (rule cfl_enumeration_canonical)
    have "generate_cfl_decompositions s p = take 10 (map (canonical_cfl_split s) idx)"
      by (simp add: generate_cfl_decompositions_def e)
    also have "\<dots> = map (canonical_cfl_split s) (take (min 10 (length idx)) idx)"
      by (simp add: take_map min_def)
    finally show ?thesis using e by simp
  qed
  from len pre ex canon cfl_gen_inv show ?thesis by blast
qed

theorem cfl_decompositions_admissible_prefix_witness:
  "length (cfl_enumeration ''aabbcc'' 5) = 55
   \<and> length (generate_cfl_decompositions ''aabbcc'' 5) = 10
   \<and> list_all (\<lambda>d. cu d @ cv d @ cw d @ cx d @ cy d = ''aabbcc''
                     \<and> 0 < length (cv d) + length (cx d)
                     \<and> int (length (cv d) + length (cw d) + length (cx d)) \<le> 5)
         (generate_cfl_decompositions ''aabbcc'' 5)
   \<and> sorted_wrt quad_less [(0, 2, 1, 1), (0, 3, 1, 1), (0, 3, 1, 2), (0, 3, 2, 2), (1, 3, 1, 1)]
   \<and> set [(0, 2, 1, 1), (0, 3, 1, 1), (0, 3, 1, 2), (0, 3, 2, 2), (1, 3, 1, 1)]
       = {q. cfl_window ''abc'' 3 q}
   \<and> generate_cfl_decompositions ''abc'' 3
       = map (canonical_cfl_split ''abc'')
           [(0, 2, 1, 1), (0, 3, 1, 1), (0, 3, 1, 2), (0, 3, 2, 2), (1, 3, 1, 1)]"
proof -
  let ?idx = "[(0, 2, 1, 1), (0, 3, 1, 1), (0, 3, 1, 2), (0, 3, 2, 2), (1::nat, 3::nat, 1::nat, 1::nat)]"
  have total: "length (cfl_enumeration ''aabbcc'' 5) = 55"
    by code_simp
  have ten: "length (generate_cfl_decompositions ''aabbcc'' 5) = 10"
    by (simp add: generate_cfl_decompositions_def total)
  note T = cfl_decompositions_admissible_prefix [of "''aabbcc''" 5]
  from T [THEN conjunct1] have inv: "list_all (\<lambda>d. cu d @ cv d @ cw d @ cx d @ cy d = ''aabbcc''
                     \<and> 0 < length (cv d) + length (cx d)
                     \<and> int (length (cv d) + length (cw d) + length (cx d)) \<le> 5)
         (generate_cfl_decompositions ''aabbcc'' 5)"
    unfolding list_all_iff .
  have srt: "sorted_wrt quad_less ?idx"
    by (simp add: quad_less_def)
  have "cfl_indices ''abc'' 3 = ?idx" by code_simp
  then have st: "set ?idx = {q. cfl_window ''abc'' 3 q}"
    using set_cfl_indices [of "''abc''" 3] by simp
  note U = cfl_decompositions_admissible_prefix [of "''abc''" 3, THEN conjunct2, THEN conjunct2,
      THEN conjunct2, THEN conjunct2, THEN spec, of ?idx, THEN mp, OF conjI [OF srt st],
      THEN conjunct2]
  have "take (min 10 (length ?idx)) ?idx = ?idx" by simp
  with U have gen: "generate_cfl_decompositions ''abc'' 3 = map (canonical_cfl_split ''abc'') ?idx"
    by (simp only:)
  show ?thesis
    by (rule conjI [OF total conjI [OF ten conjI [OF inv conjI [OF srt conjI [OF st gen]]]]])
qed


section \<open>The precondition\<close>

lemma length_error_nonempty: "length_error n p \<noteq> []"
  by (simp add: length_error_def)

text \<open>
  C3. When the string is shorter than the pumping length (\<open>len(s) < p\<close>), both engines
  return a verdict (there is no other outcome) with a non-empty error text, no iteration
  record, an empty decomposition, \<open>lemma_holds = False\<close> and the language type
  \<open>Unknown\<close>.
\<close>

theorem short_string_error_verdict:
  assumes "int (length s) < p"
  shows "length_error (length s) p \<noteq> []
    \<and> apply_regular_pumping_lemma pat s p =
        \<lparr>subject = s, pumping_length = p, decomposition = None, iterations = [],
         lemma_holds = False, language_type = ''Unknown'',
         error = Some (length_error (length s) p)\<rparr>
    \<and> apply_cfl_pumping_lemma pat s p =
        \<lparr>subject = s, pumping_length = p, decomposition = None, iterations = [],
         lemma_holds = False, language_type = ''Unknown'',
         error = Some (length_error (length s) p)\<rparr>"
  using assms
  by (simp add: apply_regular_pumping_lemma_def apply_cfl_pumping_lemma_def
      initial_result_def length_error_nonempty)

theorem short_string_error_verdict_witness:
  "int (length ''ab'') < 3
   \<and> apply_regular_pumping_lemma ''a^n b^n'' ''ab'' 3 =
        \<lparr>subject = ''ab'', pumping_length = 3, decomposition = None, iterations = [],
         lemma_holds = False, language_type = ''Unknown'',
         error = Some ''String length (2) is less than pumping length (3)''\<rparr>
   \<and> apply_cfl_pumping_lemma ''a^n b^n'' ''ab'' 3 =
        \<lparr>subject = ''ab'', pumping_length = 3, decomposition = None, iterations = [],
         lemma_holds = False, language_type = ''Unknown'',
         error = Some ''String length (2) is less than pumping length (3)''\<rparr>"
proof -
  have h: "int (length ''ab'') < 3" by simp
  have e: "length_error (length ''ab'') 3
             = ''String length (2) is less than pumping length (3)''"
    by code_simp
  from short_string_error_verdict [OF h, of "''a^n b^n''"] h e
  show ?thesis by simp
qed


section \<open>The membership oracle\<close>

lemma match_object_length:
  "match_a_plus_b_plus_c_plus s = map_option length (match_object s)"
  by (simp add: match_a_plus_b_plus_c_plus_def match_object_def Let_def)

lemma py_mod_two: "py_mod (int n) 2 = Inr (int (n mod 2))"
  by (simp add: py_mod_def zmod_int)

lemma py_floordiv_two: "py_floordiv (int n) 2 = Inr (int (n div 2))"
  by (simp add: py_floordiv_def zdiv_int)

lemma py_bind_Inr: "py_bind (Inr x) f = f x"
  by (simp add: py_bind_def)

lemma unguarded_group_raises:
  "py_bind (group_1 (match_object ''ab'')) f = Inl AttributeError"
proof -
  have "match_object ''ab'' = None" by code_simp
  then show ?thesis by (simp add: group_1_def py_bind_def)
qed

lemma checked_returns:
  "is_string_in_language_checked s pat = Inr (is_string_in_language s pat)"
proof -
  have abc: "(let a_match = match_object s
         in if a_match \<noteq> None
            then py_bind (group_1 a_match) (\<lambda>g.
                   let n = length g
                   in Inr (s = str_mul ''a'' n @ str_mul ''b'' n @ str_mul ''c'' n))
            else Inr False)
      = Inr (case match_a_plus_b_plus_c_plus s of
           Some n \<Rightarrow> s = str_mul ''a'' n @ str_mul ''b'' n @ str_mul ''c'' n
         | None \<Rightarrow> False)"
    by (cases "match_object s")
       (simp_all add: match_object_length group_1_def py_bind_def Let_def)
  show ?thesis
    unfolding is_string_in_language_checked_def is_string_in_language_def abc
    by (simp add: py_mod_two py_floordiv_two py_bind_Inr Let_def)
qed

text \<open>
  C8. The oracle returns a boolean for every string and every pattern identifier: in the
  embedding that gives the raising operations of the source their error branch, no call
  ends in an error, and the boolean is a function of the string and the pattern (the
  value of \<open>is_string_in_language\<close>). For a pattern identifier outside the supported set
  it returns \<open>False\<close> for every string.
\<close>

theorem oracle_total_unknown_pattern_false:
  "is_string_in_language_checked s pat = Inr (is_string_in_language s pat)
   \<and> (pat \<notin> set supported_patterns \<longrightarrow>
        is_string_in_language_checked s pat = Inr False
        \<and> is_string_in_language s pat = False)"
proof -
  have "pat \<notin> set supported_patterns \<Longrightarrow> is_string_in_language s pat = False"
    by (simp add: supported_patterns_def is_string_in_language_def)
  then show ?thesis by (simp add: checked_returns)
qed

theorem oracle_total_unknown_pattern_false_witness:
  "''balanced_parentheses'' \<notin> set supported_patterns
   \<and> is_string_in_language_checked ''ab'' ''balanced_parentheses'' = Inr False
   \<and> is_string_in_language ''ab'' ''balanced_parentheses'' = False
   \<and> is_string_in_language_checked ''ab'' ''a^n b^n c^n'' = Inr False"
proof -
  have h: "''balanced_parentheses'' \<notin> set supported_patterns"
    by (simp add: supported_patterns_def)
  note T = oracle_total_unknown_pattern_false [of "''ab''" "''balanced_parentheses''",
      THEN conjunct2, THEN mp, OF h]
  have f: "is_string_in_language ''ab'' ''a^n b^n c^n'' = False" by code_simp
  have g: "is_string_in_language_checked ''ab'' ''a^n b^n c^n'' = Inr False"
    using oracle_total_unknown_pattern_false [of "''ab''" "''a^n b^n c^n''", THEN conjunct1]
    unfolding f .
  show ?thesis
    by (rule conjI [OF h conjI [OF T [THEN conjunct1] conjI [OF T [THEN conjunct2] g]]])
qed


section \<open>Scenario 2\<close>

text \<open>
  C9. For the pattern \<open>(ab)*\<close>, the string \<open>abab\<close> and \<open>p = 2\<close> the regular engine
  returns a verdict with \<open>lemma_holds = True\<close>, the language type \<open>Possibly Regular\<close> and
  the decomposition \<open>x = ""\<close>, \<open>y = "ab"\<close>, \<open>z = "ab"\<close>; its iteration records, for
  \<open>i = 0, 1, 2, 3, 5\<close>, are all members.
\<close>

theorem scenario_ab_star_abab:
  "apply_regular_pumping_lemma ''(ab)*'' ''abab'' 2 =
   \<lparr>subject = ''abab'', pumping_length = 2,
    decomposition = Some \<lparr>dx = [], dy = ''ab'', dz = ''ab'',
                          reg_split_info = ''|xy| = 2, |y| = 2''\<rparr>,
    iterations =
      [\<lparr>iter_i = 0, pumped_string = ''ab'', in_language = True,
          parts = \<lparr>px = [], py = ''ab'', pz = ''ab'', y_repetitions = 0\<rparr>\<rparr>,
       \<lparr>iter_i = 1, pumped_string = ''abab'', in_language = True,
          parts = \<lparr>px = [], py = ''ab'', pz = ''ab'', y_repetitions = 1\<rparr>\<rparr>,
       \<lparr>iter_i = 2, pumped_string = ''ababab'', in_language = True,
          parts = \<lparr>px = [], py = ''ab'', pz = ''ab'', y_repetitions = 2\<rparr>\<rparr>,
       \<lparr>iter_i = 3, pumped_string = ''abababab'', in_language = True,
          parts = \<lparr>px = [], py = ''ab'', pz = ''ab'', y_repetitions = 3\<rparr>\<rparr>,
       \<lparr>iter_i = 5, pumped_string = ''abababababab'', in_language = True,
          parts = \<lparr>px = [], py = ''ab'', pz = ''ab'', y_repetitions = 5\<rparr>\<rparr>],
    lemma_holds = True, language_type = ''Possibly Regular'', error = None\<rparr>"
  by code_simp


section \<open>The loop over the repetition counts\<close>

lemma reg_iterations_eq:
  "reg_iterations pat d js (its, valid) =
     (its @ map (reg_record pat d) js,
      valid \<and> list_all in_language (map (reg_record pat d) js))"
  by (induction js arbitrary: its valid) (auto simp: Let_def reg_record_def)

lemma reg_test_eq:
  "reg_test pat d =
     (map (reg_record pat d) [0, 1, 2, 3, 5],
      list_all in_language (map (reg_record pat d) [0, 1, 2, 3, 5]))"
  by (simp add: reg_test_def reg_iterations_eq)

lemma reg_test_valid: "snd (reg_test pat d) = list_all in_language (fst (reg_test pat d))"
  by (simp add: reg_test_eq)

lemma reg_test_nonempty: "fst (reg_test pat d) \<noteq> []"
  by (simp add: reg_test_eq)

lemma reg_search_pass:
  assumes "\<forall>c \<in> set pre. \<not> snd (reg_test pat c)" and "snd (reg_test pat d)"
  shows "reg_search pat (pre @ d # post) r =
           r\<lparr>decomposition := Some d, iterations := fst (reg_test pat d),
             lemma_holds := True, language_type := ''Possibly Regular''\<rparr>"
  using assms
proof (induction pre arbitrary: r)
  case Nil
  then show ?case by (cases "reg_test pat d") simp
next
  case (Cons c pre)
  then show ?case by (cases "reg_test pat c") simp
qed

lemma reg_search_memo:
  assumes "\<forall>c \<in> set ds. \<not> snd (reg_test pat c)" and "iterations r \<noteq> []"
  shows "reg_search pat ds r = r"
  using assms
proof (induction ds arbitrary: r)
  case Nil
  then show ?case by simp
next
  case (Cons c ds)
  then show ?case by (cases "reg_test pat c") simp
qed

lemma reg_search_fail:
  assumes "\<forall>c \<in> set (d # ds). \<not> snd (reg_test pat c)" and "iterations r = []"
  shows "reg_search pat (d # ds) r =
           r\<lparr>decomposition := Some d, iterations := fst (reg_test pat d),
             lemma_holds := False, language_type := ''Not Regular''\<rparr>"
proof -
  obtain its valid where t: "reg_test pat d = (its, valid)" by (cases "reg_test pat d")
  with assms(1) have nv: "\<not> valid" by simp
  from t reg_test_nonempty [of pat d] have ne: "its \<noteq> []" by simp
  let ?r = "r\<lparr>decomposition := Some d, iterations := its,
             lemma_holds := False, language_type := ''Not Regular''\<rparr>"
  have "reg_search pat (d # ds) r = reg_search pat ds ?r"
    using t nv assms(2) by simp
  also have "\<dots> = ?r"
    using assms(1) ne by (intro reg_search_memo) simp_all
  finally show ?thesis using t by simp
qed

lemma reg_search_cases:
  assumes "iterations r = []"
  shows "(ds = [] \<and> reg_search pat ds r = r)
       \<or> (\<exists>d \<in> set ds. reg_search pat ds r =
             r\<lparr>decomposition := Some d, iterations := fst (reg_test pat d),
               lemma_holds := snd (reg_test pat d),
               language_type := (if snd (reg_test pat d) then ''Possibly Regular'' else ''Not Regular'')\<rparr>)"
proof (cases "\<exists>d \<in> set ds. snd (reg_test pat d)")
  case True
  from split_list_first_prop [OF this] obtain pre d post where
    ds: "ds = pre @ d # post" and pass: "snd (reg_test pat d)"
    and fails: "\<forall>c \<in> set pre. \<not> snd (reg_test pat c)"
    by blast
  from ds have "d \<in> set ds" by simp
  with reg_search_pass [OF fails pass, of post r] pass ds show ?thesis by auto
next
  case False
  show ?thesis
  proof (cases ds)
    case Nil
    then show ?thesis by simp
  next
    case (Cons d ds')
    with False assms reg_search_fail [of d ds' pat r] show ?thesis by auto
  qed
qed

lemma cfl_iterations_eq:
  "cfl_iterations pat d js (its, valid) =
     (its @ map (cfl_record pat d) js,
      valid \<and> list_all in_language (map (cfl_record pat d) js))"
  by (induction js arbitrary: its valid) (auto simp: Let_def cfl_record_def)

lemma cfl_test_eq:
  "cfl_test pat d =
     (map (cfl_record pat d) [0, 1, 2, 3],
      list_all in_language (map (cfl_record pat d) [0, 1, 2, 3]))"
  by (simp add: cfl_test_def cfl_iterations_eq)

lemma cfl_test_valid: "snd (cfl_test pat d) = list_all in_language (fst (cfl_test pat d))"
  by (simp add: cfl_test_eq)

lemma cfl_test_nonempty: "fst (cfl_test pat d) \<noteq> []"
  by (simp add: cfl_test_eq)

lemma cfl_search_pass:
  assumes "\<forall>c \<in> set pre. \<not> snd (cfl_test pat c)" and "snd (cfl_test pat d)"
  shows "cfl_search pat (pre @ d # post) r =
           r\<lparr>decomposition := Some d, iterations := fst (cfl_test pat d),
             lemma_holds := True, language_type := ''Possibly Context-Free''\<rparr>"
  using assms
proof (induction pre arbitrary: r)
  case Nil
  then show ?case by (cases "cfl_test pat d") simp
next
  case (Cons c pre)
  then show ?case by (cases "cfl_test pat c") simp
qed

lemma cfl_search_memo:
  assumes "\<forall>c \<in> set ds. \<not> snd (cfl_test pat c)" and "iterations r \<noteq> []"
  shows "cfl_search pat ds r = r"
  using assms
proof (induction ds arbitrary: r)
  case Nil
  then show ?case by simp
next
  case (Cons c ds)
  then show ?case by (cases "cfl_test pat c") simp
qed

lemma cfl_search_fail:
  assumes "\<forall>c \<in> set (d # ds). \<not> snd (cfl_test pat c)" and "iterations r = []"
  shows "cfl_search pat (d # ds) r =
           r\<lparr>decomposition := Some d, iterations := fst (cfl_test pat d),
             lemma_holds := False, language_type := ''Not Context-Free''\<rparr>"
proof -
  obtain its valid where t: "cfl_test pat d = (its, valid)" by (cases "cfl_test pat d")
  with assms(1) have nv: "\<not> valid" by simp
  from t cfl_test_nonempty [of pat d] have ne: "its \<noteq> []" by simp
  let ?r = "r\<lparr>decomposition := Some d, iterations := its,
             lemma_holds := False, language_type := ''Not Context-Free''\<rparr>"
  have "cfl_search pat (d # ds) r = cfl_search pat ds ?r"
    using t nv assms(2) by simp
  also have "\<dots> = ?r"
    using assms(1) ne by (intro cfl_search_memo) simp_all
  finally show ?thesis using t by simp
qed

lemma cfl_search_cases:
  assumes "iterations r = []"
  shows "(ds = [] \<and> cfl_search pat ds r = r)
       \<or> (\<exists>d \<in> set ds. cfl_search pat ds r =
             r\<lparr>decomposition := Some d, iterations := fst (cfl_test pat d),
               lemma_holds := snd (cfl_test pat d),
               language_type := (if snd (cfl_test pat d) then ''Possibly Context-Free'' else ''Not Context-Free'')\<rparr>)"
proof (cases "\<exists>d \<in> set ds. snd (cfl_test pat d)")
  case True
  from split_list_first_prop [OF this] obtain pre d post where
    ds: "ds = pre @ d # post" and pass: "snd (cfl_test pat d)"
    and fails: "\<forall>c \<in> set pre. \<not> snd (cfl_test pat c)"
    by blast
  from ds have "d \<in> set ds" by simp
  with cfl_search_pass [OF fails pass, of post r] pass ds show ?thesis by auto
next
  case False
  show ?thesis
  proof (cases ds)
    case Nil
    then show ?thesis by simp
  next
    case (Cons d ds')
    with False assms cfl_search_fail [of d ds' pat r] show ?thesis by auto
  qed
qed

lemma reg_apply_search:
  "p \<le> int (length s) \<Longrightarrow>
     apply_regular_pumping_lemma pat s p
       = reg_search pat (generate_regular_decompositions s p) (initial_result s p)"
  by (simp add: apply_regular_pumping_lemma_def)

lemma cfl_apply_search:
  "p \<le> int (length s) \<Longrightarrow>
     apply_cfl_pumping_lemma pat s p
       = cfl_search pat (generate_cfl_decompositions s p) (initial_result s p)"
  by (simp add: apply_cfl_pumping_lemma_def)

lemma initial_iterations: "iterations (initial_result s p) = []"
  by (simp add: initial_result_def)

lemma reg_first_pass:
  assumes "p \<le> int (length s)"
    and "generate_regular_decompositions s p = pre @ d # post"
    and "\<forall>c \<in> set pre. \<not> list_all in_language (fst (reg_test pat c))"
    and "list_all in_language (fst (reg_test pat d))"
  shows "apply_regular_pumping_lemma pat s p =
           (initial_result s p)\<lparr>decomposition := Some d, iterations := fst (reg_test pat d),
              lemma_holds := True, language_type := ''Possibly Regular''\<rparr>
       \<and> apply_regular_pumping_lemma pat s p
           = reg_search pat (pre @ [d]) (initial_result s p)"
proof -
  from assms(3) have f: "\<forall>c \<in> set pre. \<not> snd (reg_test pat c)"
    by (simp add: reg_test_valid)
  from assms(4) have g: "snd (reg_test pat d)"
    by (simp add: reg_test_valid)
  show ?thesis
    using reg_search_pass [OF f g, of post "initial_result s p"]
      reg_search_pass [OF f g, of "[]" "initial_result s p"] assms(1,2)
    by (simp add: reg_apply_search)
qed

lemma reg_all_fail:
  assumes "p \<le> int (length s)"
    and "generate_regular_decompositions s p = d # rest"
    and "\<forall>c \<in> set (d # rest). \<not> list_all in_language (fst (reg_test pat c))"
  shows "apply_regular_pumping_lemma pat s p =
           (initial_result s p)\<lparr>decomposition := Some d, iterations := fst (reg_test pat d),
              lemma_holds := False, language_type := ''Not Regular''\<rparr>"
proof -
  from assms(3) have f: "\<forall>c \<in> set (d # rest). \<not> snd (reg_test pat c)"
    by (simp add: reg_test_valid)
  show ?thesis
    using reg_search_fail [OF f initial_iterations, of s p] assms(1,2)
    by (simp add: reg_apply_search)
qed

lemma reg_no_candidate:
  assumes "p \<le> int (length s)" and "generate_regular_decompositions s p = []"
  shows "apply_regular_pumping_lemma pat s p = initial_result s p"
  using assms by (simp add: reg_apply_search)

lemma cfl_first_pass:
  assumes "p \<le> int (length s)"
    and "generate_cfl_decompositions s p = pre @ d # post"
    and "\<forall>c \<in> set pre. \<not> list_all in_language (fst (cfl_test pat c))"
    and "list_all in_language (fst (cfl_test pat d))"
  shows "apply_cfl_pumping_lemma pat s p =
           (initial_result s p)\<lparr>decomposition := Some d, iterations := fst (cfl_test pat d),
              lemma_holds := True, language_type := ''Possibly Context-Free''\<rparr>
       \<and> apply_cfl_pumping_lemma pat s p
           = cfl_search pat (pre @ [d]) (initial_result s p)"
proof -
  from assms(3) have f: "\<forall>c \<in> set pre. \<not> snd (cfl_test pat c)"
    by (simp add: cfl_test_valid)
  from assms(4) have g: "snd (cfl_test pat d)"
    by (simp add: cfl_test_valid)
  show ?thesis
    using cfl_search_pass [OF f g, of post "initial_result s p"]
      cfl_search_pass [OF f g, of "[]" "initial_result s p"] assms(1,2)
    by (simp add: cfl_apply_search)
qed

lemma cfl_all_fail:
  assumes "p \<le> int (length s)"
    and "generate_cfl_decompositions s p = d # rest"
    and "\<forall>c \<in> set (d # rest). \<not> list_all in_language (fst (cfl_test pat c))"
  shows "apply_cfl_pumping_lemma pat s p =
           (initial_result s p)\<lparr>decomposition := Some d, iterations := fst (cfl_test pat d),
              lemma_holds := False, language_type := ''Not Context-Free''\<rparr>"
proof -
  from assms(3) have f: "\<forall>c \<in> set (d # rest). \<not> snd (cfl_test pat c)"
    by (simp add: cfl_test_valid)
  show ?thesis
    using cfl_search_fail [OF f initial_iterations, of s p] assms(1,2)
    by (simp add: cfl_apply_search)
qed

lemma cfl_no_candidate:
  assumes "p \<le> int (length s)" and "generate_cfl_decompositions s p = []"
  shows "apply_cfl_pumping_lemma pat s p = initial_result s p"
  using assms by (simp add: cfl_apply_search)

text \<open>
  C1 (amended). Let \<open>len(s) \<ge> p\<close>. The engine runs the search loop over the generated list
  in its order. If the list is \<open>pre @ d # post\<close>, no candidate of \<open>pre\<close> has all its
  records in the language and \<open>d\<close> has, the verdict carries \<open>d\<close> and its records with
  \<open>lemma_holds = True\<close> and the language type \<open>Possibly Regular\<close> (\<open>Possibly
  Context-Free\<close>), and it is the verdict of the loop on the list cut after \<open>d\<close>: no later
  candidate matters. If the list is not empty and no candidate has all its records in the
  language, the verdict carries the first candidate and its records with
  \<open>lemma_holds = False\<close> and the language type \<open>Not Regular\<close> (\<open>Not Context-Free\<close>).
  If the list is empty, the verdict is the initial one: an empty decomposition, no
  iteration record, \<open>lemma_holds = False\<close> and the language type \<open>Unknown\<close>.
\<close>

theorem search_first_pass_else_first_candidate:
  assumes "p \<le> int (length s)"
  shows
   "(\<forall>pre d post.
        generate_regular_decompositions s p = pre @ d # post
        \<and> (\<forall>c \<in> set pre. \<not> list_all in_language (fst (reg_test pat c)))
        \<and> list_all in_language (fst (reg_test pat d))
      \<longrightarrow> apply_regular_pumping_lemma pat s p =
            (initial_result s p)\<lparr>decomposition := Some d,
               iterations := fst (reg_test pat d),
               lemma_holds := True, language_type := ''Possibly Regular''\<rparr>
          \<and> apply_regular_pumping_lemma pat s p
              = reg_search pat (pre @ [d]) (initial_result s p))
    \<and> (\<forall>d rest.
        generate_regular_decompositions s p = d # rest
        \<and> (\<forall>c \<in> set (d # rest). \<not> list_all in_language (fst (reg_test pat c)))
      \<longrightarrow> apply_regular_pumping_lemma pat s p =
            (initial_result s p)\<lparr>decomposition := Some d,
               iterations := fst (reg_test pat d),
               lemma_holds := False, language_type := ''Not Regular''\<rparr>)
    \<and> (generate_regular_decompositions s p = []
      \<longrightarrow> apply_regular_pumping_lemma pat s p = initial_result s p)
    \<and> (\<forall>pre d post.
        generate_cfl_decompositions s p = pre @ d # post
        \<and> (\<forall>c \<in> set pre. \<not> list_all in_language (fst (cfl_test pat c)))
        \<and> list_all in_language (fst (cfl_test pat d))
      \<longrightarrow> apply_cfl_pumping_lemma pat s p =
            (initial_result s p)\<lparr>decomposition := Some d,
               iterations := fst (cfl_test pat d),
               lemma_holds := True, language_type := ''Possibly Context-Free''\<rparr>
          \<and> apply_cfl_pumping_lemma pat s p
              = cfl_search pat (pre @ [d]) (initial_result s p))
    \<and> (\<forall>d rest.
        generate_cfl_decompositions s p = d # rest
        \<and> (\<forall>c \<in> set (d # rest). \<not> list_all in_language (fst (cfl_test pat c)))
      \<longrightarrow> apply_cfl_pumping_lemma pat s p =
            (initial_result s p)\<lparr>decomposition := Some d,
               iterations := fst (cfl_test pat d),
               lemma_holds := False, language_type := ''Not Context-Free''\<rparr>)
    \<and> (generate_cfl_decompositions s p = []
      \<longrightarrow> apply_cfl_pumping_lemma pat s p = initial_result s p)"
  using assms reg_first_pass [of p s _ _ _ pat] reg_all_fail [of p s _ _ pat]
    reg_no_candidate [of p s pat] cfl_first_pass [of p s _ _ _ pat]
    cfl_all_fail [of p s _ _ pat] cfl_no_candidate [of p s pat]
  by blast

theorem search_first_pass_else_first_candidate_witness:
  "apply_regular_pumping_lemma ''(ab)*'' ''abab'' 2 =
     (initial_result ''abab'' 2)\<lparr>decomposition :=
          Some \<lparr>dx = [], dy = ''ab'', dz = ''ab'', reg_split_info = ''|xy| = 2, |y| = 2''\<rparr>,
        iterations := fst (reg_test ''(ab)*''
          \<lparr>dx = [], dy = ''ab'', dz = ''ab'', reg_split_info = ''|xy| = 2, |y| = 2''\<rparr>),
        lemma_holds := True, language_type := ''Possibly Regular''\<rparr>
   \<and> apply_regular_pumping_lemma ''a^n b^n'' ''ab'' 1 =
     (initial_result ''ab'' 1)\<lparr>decomposition :=
          Some \<lparr>dx = [], dy = ''a'', dz = ''b'', reg_split_info = ''|xy| = 1, |y| = 1''\<rparr>,
        iterations := fst (reg_test ''a^n b^n''
          \<lparr>dx = [], dy = ''a'', dz = ''b'', reg_split_info = ''|xy| = 1, |y| = 1''\<rparr>),
        lemma_holds := False, language_type := ''Not Regular''\<rparr>
   \<and> apply_regular_pumping_lemma ''(ab)*'' '''' 0 = initial_result '''' 0
   \<and> apply_cfl_pumping_lemma ''a*b*'' ''ab'' 2 =
     (initial_result ''ab'' 2)\<lparr>decomposition :=
          Some \<lparr>cu = [], cv = ''a'', cw = [], cx = ''b'', cy = [],
                cfl_split_info = ''|vwx| = 2, |vx| = 2''\<rparr>,
        iterations := fst (cfl_test ''a*b*''
          \<lparr>cu = [], cv = ''a'', cw = [], cx = ''b'', cy = [],
            cfl_split_info = ''|vwx| = 2, |vx| = 2''\<rparr>),
        lemma_holds := True, language_type := ''Possibly Context-Free''\<rparr>
   \<and> apply_cfl_pumping_lemma ''a^n b^n'' ''ab'' 2 =
     (initial_result ''ab'' 2)\<lparr>decomposition :=
          Some \<lparr>cu = [], cv = ''a'', cw = [], cx = ''b'', cy = [],
                cfl_split_info = ''|vwx| = 2, |vx| = 2''\<rparr>,
        iterations := fst (cfl_test ''a^n b^n''
          \<lparr>cu = [], cv = ''a'', cw = [], cx = ''b'', cy = [],
            cfl_split_info = ''|vwx| = 2, |vx| = 2''\<rparr>),
        lemma_holds := False, language_type := ''Not Context-Free''\<rparr>
   \<and> apply_cfl_pumping_lemma ''a^n b^n'' ''ab'' 1 = initial_result ''ab'' 1"
proof -
  let ?d1 = "\<lparr>dx = [], dy = ''a'', dz = ''bab'', reg_split_info = ''|xy| = 1, |y| = 1''\<rparr>"
  let ?d2 = "\<lparr>dx = ''a'', dy = ''b'', dz = ''ab'', reg_split_info = ''|xy| = 2, |y| = 1''\<rparr>"
  let ?d3 = "\<lparr>dx = [], dy = ''ab'', dz = ''ab'', reg_split_info = ''|xy| = 2, |y| = 2''\<rparr>"
  let ?e = "\<lparr>dx = [], dy = ''a'', dz = ''b'', reg_split_info = ''|xy| = 1, |y| = 1''\<rparr>"
  let ?c = "\<lparr>cu = [], cv = ''a'', cw = [], cx = ''b'', cy = [],
             cfl_split_info = ''|vwx| = 2, |vx| = 2''\<rparr>"
  have a1: "(2::int) \<le> int (length ''abab'')" by simp
  have a2: "generate_regular_decompositions ''abab'' 2 = [?d1, ?d2] @ ?d3 # []" by code_simp
  have a3: "\<forall>c \<in> set [?d1, ?d2]. \<not> list_all in_language (fst (reg_test ''(ab)*'' c))"
    by code_simp
  have a4: "list_all in_language (fst (reg_test ''(ab)*'' ?d3))" by code_simp
  have b1: "(1::int) \<le> int (length ''ab'')" by simp
  have b2: "generate_regular_decompositions ''ab'' 1 = ?e # []" by code_simp
  have b3: "\<forall>c \<in> set (?e # []). \<not> list_all in_language (fst (reg_test ''a^n b^n'' c))"
    by code_simp
  have c1: "(0::int) \<le> int (length '''')" by simp
  have c2: "generate_regular_decompositions '''' 0 = []" by code_simp
  have d1: "(2::int) \<le> int (length ''ab'')" by simp
  have d2: "generate_cfl_decompositions ''ab'' 2 = [] @ ?c # []" by code_simp
  have d3: "\<forall>c \<in> set []. \<not> list_all in_language (fst (cfl_test ''a*b*'' c))" by simp
  have d4: "list_all in_language (fst (cfl_test ''a*b*'' ?c))" by code_simp
  have e2: "generate_cfl_decompositions ''ab'' 2 = ?c # []" by code_simp
  have e3: "\<forall>c \<in> set (?c # []). \<not> list_all in_language (fst (cfl_test ''a^n b^n'' c))"
    by code_simp
  have f2: "generate_cfl_decompositions ''ab'' 1 = []" by code_simp
  note A = search_first_pass_else_first_candidate [OF a1, of "''(ab)*''"]
  note B = search_first_pass_else_first_candidate [OF b1, of "''a^n b^n''"]
  note C = search_first_pass_else_first_candidate [OF c1, of "''(ab)*''"]
  note D = search_first_pass_else_first_candidate [OF d1, of "''a*b*''"]
  note E = search_first_pass_else_first_candidate [OF d1, of "''a^n b^n''"]
  note F = search_first_pass_else_first_candidate [OF b1, of "''a^n b^n''"]
  from A a2 a3 a4 have r1: "apply_regular_pumping_lemma ''(ab)*'' ''abab'' 2 =
     (initial_result ''abab'' 2)\<lparr>decomposition := Some ?d3,
        iterations := fst (reg_test ''(ab)*'' ?d3),
        lemma_holds := True, language_type := ''Possibly Regular''\<rparr>"
    by blast
  from B b2 b3 have r2: "apply_regular_pumping_lemma ''a^n b^n'' ''ab'' 1 =
     (initial_result ''ab'' 1)\<lparr>decomposition := Some ?e,
        iterations := fst (reg_test ''a^n b^n'' ?e),
        lemma_holds := False, language_type := ''Not Regular''\<rparr>"
    by blast
  from C c2 have r3: "apply_regular_pumping_lemma ''(ab)*'' '''' 0 = initial_result '''' 0"
    by blast
  from D d2 d3 d4 have r4: "apply_cfl_pumping_lemma ''a*b*'' ''ab'' 2 =
     (initial_result ''ab'' 2)\<lparr>decomposition := Some ?c,
        iterations := fst (cfl_test ''a*b*'' ?c),
        lemma_holds := True, language_type := ''Possibly Context-Free''\<rparr>"
    by blast
  from E e2 e3 have r5: "apply_cfl_pumping_lemma ''a^n b^n'' ''ab'' 2 =
     (initial_result ''ab'' 2)\<lparr>decomposition := Some ?c,
        iterations := fst (cfl_test ''a^n b^n'' ?c),
        lemma_holds := False, language_type := ''Not Context-Free''\<rparr>"
    by blast
  from F f2 have r6: "apply_cfl_pumping_lemma ''a^n b^n'' ''ab'' 1 = initial_result ''ab'' 1"
    by blast
  from r1 r2 r3 r4 r5 r6 show ?thesis by (intro conjI)
qed

text \<open>
  The claim as stated fails where the generated list is empty: for the string \<open>ab\<close> and
  \<open>p = 1\<close> the context-free generator finds no candidate (a window has at least two
  characters), and for the empty string and \<open>p = 0\<close> the regular generator finds none. No
  candidate passes, and the language type is \<open>Unknown\<close>, not \<open>Not Context-Free\<close> or
  \<open>Not Regular\<close>; there is no first candidate to carry.
\<close>

theorem no_candidate_verdict_is_unknown:
  "1 \<le> int (length ''ab'')
   \<and> generate_cfl_decompositions ''ab'' 1 = []
   \<and> language_type (apply_cfl_pumping_lemma ''a^n b^n'' ''ab'' 1) = ''Unknown''
   \<and> language_type (apply_cfl_pumping_lemma ''a^n b^n'' ''ab'' 1) \<noteq> ''Not Context-Free''
   \<and> decomposition (apply_cfl_pumping_lemma ''a^n b^n'' ''ab'' 1) = None
   \<and> 0 \<le> int (length '''')
   \<and> generate_regular_decompositions '''' 0 = []
   \<and> language_type (apply_regular_pumping_lemma ''a^n b^n'' '''' 0) = ''Unknown''
   \<and> language_type (apply_regular_pumping_lemma ''a^n b^n'' '''' 0) \<noteq> ''Not Regular''
   \<and> decomposition (apply_regular_pumping_lemma ''a^n b^n'' '''' 0) = None"
  by code_simp


section \<open>The verdict and its iteration records\<close>

lemma reg_search_fields:
  assumes "iterations r = []" and "\<not> lemma_holds r"
  shows "(iterations (reg_search pat ds r) = [] \<and> \<not> lemma_holds (reg_search pat ds r))
       \<or> (\<exists>d \<in> set ds. iterations (reg_search pat ds r) = fst (reg_test pat d)
             \<and> lemma_holds (reg_search pat ds r) = snd (reg_test pat d))"
  using reg_search_cases [OF assms(1), of ds pat]
proof (elim disjE conjE bexE)
  assume "ds = []" and "reg_search pat ds r = r"
  with assms show ?thesis by simp
next
  fix d
  assume d: "d \<in> set ds"
    and eq: "reg_search pat ds r =
        r\<lparr>decomposition := Some d, iterations := fst (reg_test pat d),
          lemma_holds := snd (reg_test pat d),
          language_type := (if snd (reg_test pat d) then ''Possibly Regular''
                            else ''Not Regular'')\<rparr>"
  have "iterations (reg_search pat ds r) = fst (reg_test pat d)"
    unfolding eq by simp
  moreover have "lemma_holds (reg_search pat ds r) = snd (reg_test pat d)"
    unfolding eq by simp
  ultimately show ?thesis using d by blast
qed

lemma cfl_search_fields:
  assumes "iterations r = []" and "\<not> lemma_holds r"
  shows "(iterations (cfl_search pat ds r) = [] \<and> \<not> lemma_holds (cfl_search pat ds r))
       \<or> (\<exists>d \<in> set ds. iterations (cfl_search pat ds r) = fst (cfl_test pat d)
             \<and> lemma_holds (cfl_search pat ds r) = snd (cfl_test pat d))"
  using cfl_search_cases [OF assms(1), of ds pat]
proof (elim disjE conjE bexE)
  assume "ds = []" and "cfl_search pat ds r = r"
  with assms show ?thesis by simp
next
  fix d
  assume d: "d \<in> set ds"
    and eq: "cfl_search pat ds r =
        r\<lparr>decomposition := Some d, iterations := fst (cfl_test pat d),
          lemma_holds := snd (cfl_test pat d),
          language_type := (if snd (cfl_test pat d) then ''Possibly Context-Free''
                            else ''Not Context-Free'')\<rparr>"
  have "iterations (cfl_search pat ds r) = fst (cfl_test pat d)"
    unfolding eq by simp
  moreover have "lemma_holds (cfl_search pat ds r) = snd (cfl_test pat d)"
    unfolding eq by simp
  ultimately show ?thesis using d by blast
qed

lemma initial_not_holds: "\<not> lemma_holds (initial_result s p)"
  by (simp add: initial_result_def)

lemma reg_verdict_shape:
  "(iterations (apply_regular_pumping_lemma pat s p) = []
      \<and> \<not> lemma_holds (apply_regular_pumping_lemma pat s p))
   \<or> (\<exists>d \<in> set (generate_regular_decompositions s p).
         iterations (apply_regular_pumping_lemma pat s p) = fst (reg_test pat d)
         \<and> lemma_holds (apply_regular_pumping_lemma pat s p) = snd (reg_test pat d))"
proof (cases "int (length s) < p")
  case True
  then have "apply_regular_pumping_lemma pat s p
      = (initial_result s p)\<lparr>error := Some (length_error (length s) p)\<rparr>"
    by (simp add: apply_regular_pumping_lemma_def)
  then have "iterations (apply_regular_pumping_lemma pat s p) = []"
    and "\<not> lemma_holds (apply_regular_pumping_lemma pat s p)"
    by (simp_all add: initial_iterations initial_not_holds)
  then show ?thesis by (intro disjI1 conjI)
next
  case False
  then have eq: "apply_regular_pumping_lemma pat s p
      = reg_search pat (generate_regular_decompositions s p) (initial_result s p)"
    by (simp add: reg_apply_search)
  show ?thesis
    unfolding eq by (rule reg_search_fields [OF initial_iterations initial_not_holds])
qed

lemma reg_verdict_consistent:
  "(iterations (apply_regular_pumping_lemma pat s p) = []
      \<and> \<not> lemma_holds (apply_regular_pumping_lemma pat s p))
   \<or> (iterations (apply_regular_pumping_lemma pat s p) \<noteq> []
      \<and> lemma_holds (apply_regular_pumping_lemma pat s p)
          = list_all in_language (iterations (apply_regular_pumping_lemma pat s p)))"
  using reg_verdict_shape [of pat s p]
proof (elim disjE conjE bexE)
  assume "iterations (apply_regular_pumping_lemma pat s p) = []"
    and "\<not> lemma_holds (apply_regular_pumping_lemma pat s p)"
  then show ?thesis by (intro disjI1 conjI)
next
  fix d
  assume its: "iterations (apply_regular_pumping_lemma pat s p) = fst (reg_test pat d)"
    and lh: "lemma_holds (apply_regular_pumping_lemma pat s p) = snd (reg_test pat d)"
  have "iterations (apply_regular_pumping_lemma pat s p) \<noteq> []"
    unfolding its by (rule reg_test_nonempty)
  moreover have "lemma_holds (apply_regular_pumping_lemma pat s p)
          = list_all in_language (iterations (apply_regular_pumping_lemma pat s p))"
    unfolding its lh by (rule reg_test_valid)
  ultimately show ?thesis by (intro disjI2 conjI)
qed

lemma cfl_verdict_shape:
  "(iterations (apply_cfl_pumping_lemma pat s p) = []
      \<and> \<not> lemma_holds (apply_cfl_pumping_lemma pat s p))
   \<or> (\<exists>d \<in> set (generate_cfl_decompositions s p).
         iterations (apply_cfl_pumping_lemma pat s p) = fst (cfl_test pat d)
         \<and> lemma_holds (apply_cfl_pumping_lemma pat s p) = snd (cfl_test pat d))"
proof (cases "int (length s) < p")
  case True
  then have "apply_cfl_pumping_lemma pat s p
      = (initial_result s p)\<lparr>error := Some (length_error (length s) p)\<rparr>"
    by (simp add: apply_cfl_pumping_lemma_def)
  then have "iterations (apply_cfl_pumping_lemma pat s p) = []"
    and "\<not> lemma_holds (apply_cfl_pumping_lemma pat s p)"
    by (simp_all add: initial_iterations initial_not_holds)
  then show ?thesis by (intro disjI1 conjI)
next
  case False
  then have eq: "apply_cfl_pumping_lemma pat s p
      = cfl_search pat (generate_cfl_decompositions s p) (initial_result s p)"
    by (simp add: cfl_apply_search)
  show ?thesis
    unfolding eq by (rule cfl_search_fields [OF initial_iterations initial_not_holds])
qed

lemma cfl_verdict_consistent:
  "(iterations (apply_cfl_pumping_lemma pat s p) = []
      \<and> \<not> lemma_holds (apply_cfl_pumping_lemma pat s p))
   \<or> (iterations (apply_cfl_pumping_lemma pat s p) \<noteq> []
      \<and> lemma_holds (apply_cfl_pumping_lemma pat s p)
          = list_all in_language (iterations (apply_cfl_pumping_lemma pat s p)))"
  using cfl_verdict_shape [of pat s p]
proof (elim disjE conjE bexE)
  assume "iterations (apply_cfl_pumping_lemma pat s p) = []"
    and "\<not> lemma_holds (apply_cfl_pumping_lemma pat s p)"
  then show ?thesis by (intro disjI1 conjI)
next
  fix d
  assume its: "iterations (apply_cfl_pumping_lemma pat s p) = fst (cfl_test pat d)"
    and lh: "lemma_holds (apply_cfl_pumping_lemma pat s p) = snd (cfl_test pat d)"
  have "iterations (apply_cfl_pumping_lemma pat s p) \<noteq> []"
    unfolding its by (rule cfl_test_nonempty)
  moreover have "lemma_holds (apply_cfl_pumping_lemma pat s p)
          = list_all in_language (iterations (apply_cfl_pumping_lemma pat s p))"
    unfolding its lh by (rule cfl_test_valid)
  ultimately show ?thesis by (intro disjI2 conjI)
qed

lemma holds_iff_form:
  "(its = [] \<and> \<not> h) \<or> (its \<noteq> [] \<and> h = list_all P its)
     \<Longrightarrow> (its \<noteq> [] \<longrightarrow> (h \<longleftrightarrow> (\<forall>r \<in> set its. P r))) \<and> (its = [] \<longrightarrow> \<not> h)"
  by (auto simp: list_all_iff)

lemma iff_holdsI: "(h \<longleftrightarrow> (\<forall>r \<in> set its. P r)) \<Longrightarrow> list_all P its \<Longrightarrow> h"
  by (simp add: list_all_iff)

lemma iff_not_holdsI: "(h \<longleftrightarrow> (\<forall>r \<in> set its. P r)) \<Longrightarrow> \<not> list_all P its \<Longrightarrow> \<not> h"
  by (simp add: list_all_iff)

text \<open>
  C2 (amended). For every pattern, string and \<open>p\<close>, a verdict of either engine whose
  list of iteration records is not empty has \<open>lemma_holds = True\<close> if and only if every
  record of the list is in the language; a verdict whose list is empty has
  \<open>lemma_holds = False\<close>.
\<close>

theorem lemma_holds_iff_all_members:
  "(iterations (apply_regular_pumping_lemma pat s p) \<noteq> [] \<longrightarrow>
      (lemma_holds (apply_regular_pumping_lemma pat s p)
        \<longleftrightarrow> (\<forall>r \<in> set (iterations (apply_regular_pumping_lemma pat s p)). in_language r)))
   \<and> (iterations (apply_regular_pumping_lemma pat s p) = [] \<longrightarrow>
        \<not> lemma_holds (apply_regular_pumping_lemma pat s p))
   \<and> (iterations (apply_cfl_pumping_lemma pat s p) \<noteq> [] \<longrightarrow>
      (lemma_holds (apply_cfl_pumping_lemma pat s p)
        \<longleftrightarrow> (\<forall>r \<in> set (iterations (apply_cfl_pumping_lemma pat s p)). in_language r)))
   \<and> (iterations (apply_cfl_pumping_lemma pat s p) = [] \<longrightarrow>
        \<not> lemma_holds (apply_cfl_pumping_lemma pat s p))"
proof -
  note R = holds_iff_form [OF reg_verdict_consistent [of pat s p]]
  note C = holds_iff_form [OF cfl_verdict_consistent [of pat s p]]
  show ?thesis
    by (rule conjI [OF R [THEN conjunct1] conjI [OF R [THEN conjunct2] C]])
qed

theorem lemma_holds_iff_all_members_witness:
  "iterations (apply_regular_pumping_lemma ''(ab)*'' ''abab'' 2) \<noteq> []
   \<and> list_all in_language (iterations (apply_regular_pumping_lemma ''(ab)*'' ''abab'' 2))
   \<and> lemma_holds (apply_regular_pumping_lemma ''(ab)*'' ''abab'' 2)
   \<and> iterations (apply_regular_pumping_lemma ''a^n b^n'' ''ab'' 1) \<noteq> []
   \<and> \<not> list_all in_language (iterations (apply_regular_pumping_lemma ''a^n b^n'' ''ab'' 1))
   \<and> \<not> lemma_holds (apply_regular_pumping_lemma ''a^n b^n'' ''ab'' 1)
   \<and> iterations (apply_regular_pumping_lemma ''(ab)*'' '''' 0) = []
   \<and> \<not> lemma_holds (apply_regular_pumping_lemma ''(ab)*'' '''' 0)
   \<and> iterations (apply_cfl_pumping_lemma ''a*b*'' ''ab'' 2) \<noteq> []
   \<and> list_all in_language (iterations (apply_cfl_pumping_lemma ''a*b*'' ''ab'' 2))
   \<and> lemma_holds (apply_cfl_pumping_lemma ''a*b*'' ''ab'' 2)
   \<and> iterations (apply_cfl_pumping_lemma ''a^n b^n'' ''ab'' 1) = []
   \<and> \<not> lemma_holds (apply_cfl_pumping_lemma ''a^n b^n'' ''ab'' 1)"
proof -
  have a: "iterations (apply_regular_pumping_lemma ''(ab)*'' ''abab'' 2) \<noteq> []"
    by code_simp
  have a': "list_all in_language (iterations (apply_regular_pumping_lemma ''(ab)*'' ''abab'' 2))"
    by code_simp
  have b: "iterations (apply_regular_pumping_lemma ''a^n b^n'' ''ab'' 1) \<noteq> []"
    by code_simp
  have b': "\<not> list_all in_language (iterations (apply_regular_pumping_lemma ''a^n b^n'' ''ab'' 1))"
    by code_simp
  have c: "iterations (apply_regular_pumping_lemma ''(ab)*'' '''' 0) = []"
    by code_simp
  have d: "iterations (apply_cfl_pumping_lemma ''a*b*'' ''ab'' 2) \<noteq> []"
    by code_simp
  have d': "list_all in_language (iterations (apply_cfl_pumping_lemma ''a*b*'' ''ab'' 2))"
    by code_simp
  have e: "iterations (apply_cfl_pumping_lemma ''a^n b^n'' ''ab'' 1) = []"
    by code_simp
  note A = lemma_holds_iff_all_members [of "''(ab)*''" "''abab''" 2]
  note B = lemma_holds_iff_all_members [of "''a^n b^n''" "''ab''" 1]
  note C = lemma_holds_iff_all_members [of "''(ab)*''" "''''" 0]
  note D = lemma_holds_iff_all_members [of "''a*b*''" "''ab''" 2]
  note r1 = iff_holdsI [OF A [THEN conjunct1, THEN mp, OF a] a']
  note r2 = iff_not_holdsI [OF B [THEN conjunct1, THEN mp, OF b] b']
  note r3 = C [THEN conjunct2, THEN conjunct1, THEN mp, OF c]
  note r4 = iff_holdsI [OF D [THEN conjunct2, THEN conjunct2, THEN conjunct1, THEN mp, OF d] d']
  note r5 = B [THEN conjunct2, THEN conjunct2, THEN conjunct2, THEN mp, OF e]
  show ?thesis
    by (intro conjI) (rule a a' r1 b b' r2 c r3 d d' r4 e r5)+
qed

text \<open>
  The claim as stated fails for a verdict with no iteration record: every record of the
  empty list is in the language, and \<open>lemma_holds\<close> is \<open>False\<close>.
\<close>

theorem empty_iterations_not_holds:
  "iterations (apply_regular_pumping_lemma ''(ab)*'' '''' 0) = []
   \<and> \<not> (lemma_holds (apply_regular_pumping_lemma ''(ab)*'' '''' 0)
        \<longleftrightarrow> (\<forall>r \<in> set (iterations (apply_regular_pumping_lemma ''(ab)*'' '''' 0)).
               in_language r))"
proof -
  have "apply_regular_pumping_lemma ''(ab)*'' '''' 0 = initial_result '''' 0"
    by code_simp
  then show ?thesis by (simp add: initial_result_def)
qed


section \<open>Pumping once\<close>

lemma str_mul_one: "str_mul y (Suc 0) = y"
  by (simp add: str_mul_def)

lemma reg_record_i: "iter_i (reg_record pat d i) = i"
  by (simp add: reg_record_def)

lemma reg_record_once: "pumped_string (reg_record pat d (Suc 0)) = dx d @ dy d @ dz d"
  by (simp add: reg_record_def str_mul_one)

lemma cfl_record_i: "iter_i (cfl_record pat d i) = i"
  by (simp add: cfl_record_def)

lemma cfl_record_once:
  "pumped_string (cfl_record pat d (Suc 0)) = cu d @ cv d @ cw d @ cx d @ cy d"
  by (simp add: cfl_record_def str_mul_one)

lemma reg_test_once:
  assumes "dx d @ dy d @ dz d = s"
  shows "(\<exists>r \<in> set (fst (reg_test pat d)). iter_i r = 1)
       \<and> (\<forall>r \<in> set (fst (reg_test pat d)). iter_i r = 1 \<longrightarrow> pumped_string r = s)"
proof
  have fst_eq: "fst (reg_test pat d) = map (reg_record pat d) [0, 1, 2, 3, 5]"
    by (simp only: reg_test_eq fst_conv)
  have "(1::nat) \<in> set [0, 1, 2, 3, 5]" by simp
  then have "reg_record pat d 1 \<in> set (fst (reg_test pat d))"
    unfolding fst_eq set_map by (rule imageI)
  moreover have "iter_i (reg_record pat d 1) = 1"
    by (rule reg_record_i)
  ultimately show "\<exists>r \<in> set (fst (reg_test pat d)). iter_i r = 1" ..
  show "\<forall>r \<in> set (fst (reg_test pat d)). iter_i r = 1 \<longrightarrow> pumped_string r = s"
  proof (intro ballI impI)
    fix r assume mem: "r \<in> set (fst (reg_test pat d))" and one: "iter_i r = 1"
    from mem have "r \<in> reg_record pat d ` set [0, 1, 2, 3, 5]"
      unfolding fst_eq set_map .
    then obtain i where r: "r = reg_record pat d i" ..
    with one have "i = Suc 0" by (simp add: reg_record_i)
    with r assms show "pumped_string r = s" by (simp add: reg_record_once)
  qed
qed

lemma cfl_test_once:
  assumes "cu d @ cv d @ cw d @ cx d @ cy d = s"
  shows "(\<exists>r \<in> set (fst (cfl_test pat d)). iter_i r = 1)
       \<and> (\<forall>r \<in> set (fst (cfl_test pat d)). iter_i r = 1 \<longrightarrow> pumped_string r = s)"
proof
  have fst_eq: "fst (cfl_test pat d) = map (cfl_record pat d) [0, 1, 2, 3]"
    by (simp only: cfl_test_eq fst_conv)
  have "(1::nat) \<in> set [0, 1, 2, 3]" by simp
  then have "cfl_record pat d 1 \<in> set (fst (cfl_test pat d))"
    unfolding fst_eq set_map by (rule imageI)
  moreover have "iter_i (cfl_record pat d 1) = 1"
    by (rule cfl_record_i)
  ultimately show "\<exists>r \<in> set (fst (cfl_test pat d)). iter_i r = 1" ..
  show "\<forall>r \<in> set (fst (cfl_test pat d)). iter_i r = 1 \<longrightarrow> pumped_string r = s"
  proof (intro ballI impI)
    fix r assume mem: "r \<in> set (fst (cfl_test pat d))" and one: "iter_i r = 1"
    from mem have "r \<in> cfl_record pat d ` set [0, 1, 2, 3]"
      unfolding fst_eq set_map .
    then obtain i where r: "r = cfl_record pat d i" ..
    with one have "i = Suc 0" by (simp add: cfl_record_i)
    with r assms show "pumped_string r = s" by (simp add: cfl_record_once)
  qed
qed

lemma once_list_form:
  "(\<exists>r \<in> set rs. iter_i r = 1) \<and> (\<forall>r \<in> set rs. iter_i r = 1 \<longrightarrow> pumped_string r = s)
     \<Longrightarrow> list_ex (\<lambda>r. iter_i r = 1) rs
         \<and> list_all (\<lambda>r. iter_i r \<noteq> 1 \<or> pumped_string r = s) rs"
  by (auto simp: list_ex_iff list_all_iff)

text \<open>
  C10. Let \<open>len(s) \<ge> p\<close>. In a verdict of either engine whose list of iteration records
  is not empty, there is a record with repetition count \<open>i = 1\<close>, and the pumped string of
  every such record is the input string \<open>s\<close>.
\<close>

theorem pumping_once_is_identity:
  assumes "p \<le> int (length s)"
  shows
   "(iterations (apply_regular_pumping_lemma pat s p) \<noteq> [] \<longrightarrow>
       (\<exists>r \<in> set (iterations (apply_regular_pumping_lemma pat s p)). iter_i r = 1)
       \<and> (\<forall>r \<in> set (iterations (apply_regular_pumping_lemma pat s p)).
            iter_i r = 1 \<longrightarrow> pumped_string r = s))
    \<and> (iterations (apply_cfl_pumping_lemma pat s p) \<noteq> [] \<longrightarrow>
       (\<exists>r \<in> set (iterations (apply_cfl_pumping_lemma pat s p)). iter_i r = 1)
       \<and> (\<forall>r \<in> set (iterations (apply_cfl_pumping_lemma pat s p)).
            iter_i r = 1 \<longrightarrow> pumped_string r = s))"
proof (rule conjI; rule impI)
  assume ne: "iterations (apply_regular_pumping_lemma pat s p) \<noteq> []"
  from reg_verdict_shape [of pat s p] ne obtain d where
    d: "d \<in> set (generate_regular_decompositions s p)" and
    it: "iterations (apply_regular_pumping_lemma pat s p) = fst (reg_test pat d)"
    by (elim disjE conjE bexE) (rule notE, assumption+)
  from reg_decomp_inv [OF d] have "dx d @ dy d @ dz d = s" by (rule conjunct1)
  from reg_test_once [OF this, of pat]
  show "(\<exists>r \<in> set (iterations (apply_regular_pumping_lemma pat s p)). iter_i r = 1)
       \<and> (\<forall>r \<in> set (iterations (apply_regular_pumping_lemma pat s p)).
            iter_i r = 1 \<longrightarrow> pumped_string r = s)"
    unfolding it .
next
  assume ne: "iterations (apply_cfl_pumping_lemma pat s p) \<noteq> []"
  from cfl_verdict_shape [of pat s p] ne obtain d where
    d: "d \<in> set (generate_cfl_decompositions s p)" and
    it: "iterations (apply_cfl_pumping_lemma pat s p) = fst (cfl_test pat d)"
    by (elim disjE conjE bexE) (rule notE, assumption+)
  from cfl_gen_inv [OF d] have "cu d @ cv d @ cw d @ cx d @ cy d = s" by (rule conjunct1)
  from cfl_test_once [OF this, of pat]
  show "(\<exists>r \<in> set (iterations (apply_cfl_pumping_lemma pat s p)). iter_i r = 1)
       \<and> (\<forall>r \<in> set (iterations (apply_cfl_pumping_lemma pat s p)).
            iter_i r = 1 \<longrightarrow> pumped_string r = s)"
    unfolding it .
qed

theorem pumping_once_is_identity_witness:
  "(3::int) \<le> int (length ''aabb'')
   \<and> iterations (apply_regular_pumping_lemma ''a^n b^n'' ''aabb'' 3) \<noteq> []
   \<and> list_ex (\<lambda>r. iter_i r = 1) (iterations (apply_regular_pumping_lemma ''a^n b^n'' ''aabb'' 3))
   \<and> list_all (\<lambda>r. iter_i r \<noteq> 1 \<or> pumped_string r = ''aabb'')
        (iterations (apply_regular_pumping_lemma ''a^n b^n'' ''aabb'' 3))
   \<and> iterations (apply_cfl_pumping_lemma ''a^n b^n'' ''aabb'' 3) \<noteq> []
   \<and> list_ex (\<lambda>r. iter_i r = 1) (iterations (apply_cfl_pumping_lemma ''a^n b^n'' ''aabb'' 3))
   \<and> list_all (\<lambda>r. iter_i r \<noteq> 1 \<or> pumped_string r = ''aabb'')
        (iterations (apply_cfl_pumping_lemma ''a^n b^n'' ''aabb'' 3))"
proof -
  have h: "(3::int) \<le> int (length ''aabb'')" by simp
  have a: "iterations (apply_regular_pumping_lemma ''a^n b^n'' ''aabb'' 3) \<noteq> []"
    by code_simp
  have b: "iterations (apply_cfl_pumping_lemma ''a^n b^n'' ''aabb'' 3) \<noteq> []"
    by code_simp
  note T = pumping_once_is_identity [OF h, of "''a^n b^n''"]
  note R = once_list_form [OF T [THEN conjunct1, THEN mp, OF a]]
  note C = once_list_form [OF T [THEN conjunct2, THEN mp, OF b]]
  show ?thesis
    by (rule conjI [OF h conjI [OF a conjI [OF R [THEN conjunct1] conjI [OF R [THEN conjunct2]
          conjI [OF b C]]]]])
qed


section \<open>The pattern \<open>a^n b^n\<close>\<close>

lemma startswith_iff: "startswith s t \<longleftrightarrow> (\<exists>v. s = t @ v)"
proof
  assume "startswith s t"
  then have "take (length t) s = t" by (simp add: startswith_def)
  then have "s = t @ drop (length t) s" by (metis append_take_drop_id)
  then show "\<exists>v. s = t @ v" ..
next
  assume "\<exists>v. s = t @ v"
  then show "startswith s t" by (auto simp: startswith_def)
qed

lemma endswith_iff: "endswith s t \<longleftrightarrow> (\<exists>u. s = u @ t)"
proof
  assume "endswith s t"
  then have "length t \<le> length s" and "drop (length s - length t) s = t"
    by (simp_all add: endswith_def)
  then have "s = take (length s - length t) s @ t" by (metis append_take_drop_id)
  then show "\<exists>u. s = u @ t" ..
next
  assume "\<exists>u. s = u @ t"
  then show "endswith s t" by (auto simp: endswith_def)
qed

lemma contains_iff: "contains s t \<longleftrightarrow> (\<exists>u v. s = u @ t @ v)"
proof (induction s)
  case Nil
  then show ?case by auto
next
  case (Cons c cs)
  note IH = Cons.IH
  show ?case
  proof
    assume "contains (c # cs) t"
    then consider "startswith (c # cs) t" | "contains cs t" by auto
    then show "\<exists>u v. c # cs = u @ t @ v"
    proof cases
      case 1
      then obtain v where "c # cs = t @ v" by (auto simp: startswith_iff)
      then have "c # cs = [] @ t @ v" by simp
      then show ?thesis by blast
    next
      case 2
      with IH obtain u v where "cs = u @ t @ v" by auto
      then have "c # cs = (c # u) @ t @ v" by simp
      then show ?thesis by blast
    qed
  next
    assume "\<exists>u v. c # cs = u @ t @ v"
    then obtain u v where eq: "c # cs = u @ t @ v" by blast
    show "contains (c # cs) t"
    proof (cases u)
      case Nil
      with eq have "startswith (c # cs) t" by (auto simp: startswith_iff)
      then show ?thesis by simp
    next
      case (Cons d u')
      with eq have "cs = u' @ t @ v" by simp
      with IH have "contains cs t" by blast
      then show ?thesis by simp
    qed
  qed
qed

lemma count_char_count_list: "count_char s c = count_list s c"
  by (induction s) (auto simp: count_char_def)

lemma count_list_replicate_same: "count_list (replicate n x) x = n"
  by (induction n) simp_all

lemma count_list_replicate_other: "x \<noteq> y \<Longrightarrow> count_list (replicate n x) y = 0"
  by (induction n) simp_all

lemma count_list_append_rep: "count_list (xs @ ys) c = count_list xs c + count_list ys c"
  by (induction xs) simp_all

lemma no_ba_blocks:
  assumes "set s \<subseteq> {CHR ''a'', CHR ''b''}" and "\<not> (\<exists>u v. s = u @ ''ba'' @ v)"
  shows "\<exists>m n. s = replicate m CHR ''a'' @ replicate n CHR ''b''"
  using assms
proof (induction s)
  case Nil
  have "[] = replicate 0 CHR ''a'' @ replicate 0 CHR ''b''" by simp
  then show ?case by blast
next
  case (Cons c cs)
  have no: "\<not> (\<exists>u v. cs = u @ ''ba'' @ v)"
  proof
    assume "\<exists>u v. cs = u @ ''ba'' @ v"
    then obtain u v where "cs = u @ ''ba'' @ v" by blast
    then have "c # cs = (c # u) @ ''ba'' @ v" by simp
    with Cons.prems(2) show False by blast
  qed
  from Cons.prems(1) have "set cs \<subseteq> {CHR ''a'', CHR ''b''}" by simp
  from Cons.IH [OF this no] obtain m n where
    cs: "cs = replicate m CHR ''a'' @ replicate n CHR ''b''" by blast
  from Cons.prems(1) consider "c = CHR ''a''" | "c = CHR ''b''" by auto
  then show ?case
  proof cases
    case 1
    with cs have "c # cs = replicate (Suc m) CHR ''a'' @ replicate n CHR ''b''" by simp
    then show ?thesis by blast
  next
    case 2
    have "m = 0"
    proof (rule ccontr)
      assume "m \<noteq> 0"
      then obtain m' where "m = Suc m'" by (cases m) auto
      with cs 2 have "c # cs = [] @ ''ba'' @ (replicate m' CHR ''a'' @ replicate n CHR ''b'')"
        by simp
      with Cons.prems(2) show False by blast
    qed
    with cs 2 have "c # cs = replicate 0 CHR ''a'' @ replicate (Suc n) CHR ''b''" by simp
    then show ?thesis by blast
  qed
qed

lemma blocks_no_ba:
  "\<not> (\<exists>u v. replicate m CHR ''a'' @ replicate n CHR ''b'' = u @ ''ba'' @ v)"
proof
  assume "\<exists>u v. replicate m CHR ''a'' @ replicate n CHR ''b'' = u @ ''ba'' @ v"
  then obtain u v where eq: "replicate m CHR ''a'' @ replicate n CHR ''b'' = u @ ''ba'' @ v"
    by blast
  let ?s = "replicate m CHR ''a'' @ replicate n CHR ''b''"
  have len: "length u + 1 < length ?s" using arg_cong [OF eq, of length] by simp
  have b: "?s ! length u = CHR ''b''" unfolding eq by (simp add: nth_append)
  have a: "?s ! (length u + 1) = CHR ''a''" unfolding eq by (simp add: nth_append)
  from b have "\<not> length u < m" by (auto simp: nth_append)
  then have "\<not> length u + 1 < m" by simp
  with a len show False by (auto simp: nth_append)
qed

lemma blocks_conditions:
  "set s \<subseteq> {CHR ''a'', CHR ''b''}
     \<and> (\<exists>r. s = CHR ''a'' # r) \<and> (\<exists>r. s = r @ ''b'')
     \<and> count_list s CHR ''a'' = count_list s CHR ''b''
     \<and> \<not> (\<exists>u v. s = u @ ''ba'' @ v)
   \<longleftrightarrow> (\<exists>k\<ge>1. s = replicate k CHR ''a'' @ replicate k CHR ''b'')"
proof
  assume h: "set s \<subseteq> {CHR ''a'', CHR ''b''}
     \<and> (\<exists>r. s = CHR ''a'' # r) \<and> (\<exists>r. s = r @ ''b'')
     \<and> count_list s CHR ''a'' = count_list s CHR ''b''
     \<and> \<not> (\<exists>u v. s = u @ ''ba'' @ v)"
  then obtain m n where s: "s = replicate m CHR ''a'' @ replicate n CHR ''b''"
    using no_ba_blocks by blast
  from h have "count_list s CHR ''a'' = count_list s CHR ''b''" by blast
  then have "m = n"
    unfolding s
    by (simp add: count_list_append_rep count_list_replicate_same count_list_replicate_other)
  moreover have "m \<noteq> 0"
  proof
    assume "m = 0"
    with s h obtain r where "replicate n CHR ''b'' = CHR ''a'' # r" by auto
    then have "CHR ''a'' \<in> set (replicate n CHR ''b'')" by (metis list.set_intros(1))
    then show False by simp
  qed
  ultimately have "1 \<le> m \<and> s = replicate m CHR ''a'' @ replicate m CHR ''b''"
    using s by simp
  then show "\<exists>k\<ge>1. s = replicate k CHR ''a'' @ replicate k CHR ''b''" by blast
next
  assume "\<exists>k\<ge>1. s = replicate k CHR ''a'' @ replicate k CHR ''b''"
  then obtain k where k: "1 \<le> k" and s: "s = replicate k CHR ''a'' @ replicate k CHR ''b''"
    by blast
  from k obtain j where j: "k = Suc j" by (cases k) auto
  have "set s \<subseteq> {CHR ''a'', CHR ''b''}" unfolding s by auto
  moreover have "s = CHR ''a'' # (replicate j CHR ''a'' @ replicate k CHR ''b'')"
    unfolding s j by simp
  then have "\<exists>r. s = CHR ''a'' # r" ..
  moreover have "s = (replicate k CHR ''a'' @ replicate j CHR ''b'') @ ''b''"
    unfolding s j by (simp add: replicate_append_same)
  then have "\<exists>r. s = r @ ''b''" ..
  moreover have "count_list s CHR ''a'' = count_list s CHR ''b''"
    unfolding s
    by (simp add: count_list_append_rep count_list_replicate_same count_list_replicate_other)
  moreover have "\<not> (\<exists>u v. s = u @ ''ba'' @ v)"
    unfolding s by (rule blocks_no_ba)
  ultimately show "set s \<subseteq> {CHR ''a'', CHR ''b''}
     \<and> (\<exists>r. s = CHR ''a'' # r) \<and> (\<exists>r. s = r @ ''b'')
     \<and> count_list s CHR ''a'' = count_list s CHR ''b''
     \<and> \<not> (\<exists>u v. s = u @ ''ba'' @ v)"
    by (intro conjI)
qed

lemma anbn_conditions:
  "is_string_in_language s ''a^n b^n'' \<longleftrightarrow>
     (\<exists>r. s = CHR ''a'' # r) \<and> (\<exists>r. s = r @ ''b'')
     \<and> count_list s CHR ''a'' = count_list s CHR ''b''
     \<and> \<not> (\<exists>u v. s = u @ ''ba'' @ v)"
  by (simp add: is_string_in_language_def startswith_iff endswith_iff contains_iff
      count_char_count_list)

text \<open>
  C6 (amended). For every string \<open>s\<close>, the oracle accepts \<open>s\<close> for the pattern
  \<open>a^n b^n\<close> if and only if \<open>s\<close> starts with \<open>a\<close>, ends with \<open>b\<close>, has as many \<open>a\<close> as
  \<open>b\<close> and does not contain \<open>ba\<close>. For a string over the alphabet \<open>{a, b}\<close> this holds if
  and only if \<open>s\<close> is \<open>k\<close> times \<open>a\<close> followed by \<open>k\<close> times \<open>b\<close> for some \<open>k \<ge> 1\<close>.
  The empty string is not accepted.
\<close>

theorem anbn_membership:
  "(is_string_in_language s ''a^n b^n'' \<longleftrightarrow>
      (\<exists>r. s = CHR ''a'' # r) \<and> (\<exists>r. s = r @ ''b'')
      \<and> count_list s CHR ''a'' = count_list s CHR ''b''
      \<and> \<not> (\<exists>u v. s = u @ ''ba'' @ v))
   \<and> (set s \<subseteq> {CHR ''a'', CHR ''b''} \<longrightarrow>
        (is_string_in_language s ''a^n b^n'' \<longleftrightarrow>
           (\<exists>k\<ge>1. s = replicate k CHR ''a'' @ replicate k CHR ''b'')))
   \<and> \<not> is_string_in_language [] ''a^n b^n''"
proof (intro conjI impI)
  show "is_string_in_language s ''a^n b^n'' \<longleftrightarrow>
      (\<exists>r. s = CHR ''a'' # r) \<and> (\<exists>r. s = r @ ''b'')
      \<and> count_list s CHR ''a'' = count_list s CHR ''b''
      \<and> \<not> (\<exists>u v. s = u @ ''ba'' @ v)"
    by (rule anbn_conditions)
next
  assume ab: "set s \<subseteq> {CHR ''a'', CHR ''b''}"
  show "is_string_in_language s ''a^n b^n'' \<longleftrightarrow>
           (\<exists>k\<ge>1. s = replicate k CHR ''a'' @ replicate k CHR ''b'')"
    unfolding anbn_conditions blocks_conditions [of s, symmetric] using ab by blast
next
  show "\<not> is_string_in_language [] ''a^n b^n''"
    unfolding anbn_conditions by simp
qed

theorem anbn_membership_witness:
  "set ''aabb'' \<subseteq> {CHR ''a'', CHR ''b''}
   \<and> is_string_in_language ''aabb'' ''a^n b^n''
   \<and> (\<exists>k\<ge>1. ''aabb'' = replicate k CHR ''a'' @ replicate k CHR ''b'')"
proof -
  have ab: "set ''aabb'' \<subseteq> {CHR ''a'', CHR ''b''}" by simp
  have m: "is_string_in_language ''aabb'' ''a^n b^n''" by code_simp
  note T = anbn_membership [of "''aabb''", THEN conjunct2, THEN conjunct1, THEN mp, OF ab]
  from T m have "\<exists>k\<ge>1. ''aabb'' = replicate k CHR ''a'' @ replicate k CHR ''b''"
    by (rule iffD1)
  with ab m show ?thesis by (intro conjI)
qed

text \<open>
  Over the alphabet \<open>{a, b, c}\<close> the two descriptions differ: \<open>acb\<close> starts with \<open>a\<close>,
  ends with \<open>b\<close>, has one \<open>a\<close> and one \<open>b\<close> and no \<open>ba\<close>, so the oracle accepts it, and
  it is not of the shape \<open>a^k b^k\<close>.
\<close>

theorem anbn_accepts_acb:
  "set ''acb'' \<subseteq> {CHR ''a'', CHR ''b'', CHR ''c''}
   \<and> is_string_in_language ''acb'' ''a^n b^n''
   \<and> \<not> (\<exists>k\<ge>1. ''acb'' = replicate k CHR ''a'' @ replicate k CHR ''b'')"
proof (intro conjI)
  show "set ''acb'' \<subseteq> {CHR ''a'', CHR ''b'', CHR ''c''}" by simp
  show "is_string_in_language ''acb'' ''a^n b^n''" by code_simp
  show "\<not> (\<exists>k\<ge>1. ''acb'' = replicate k CHR ''a'' @ replicate k CHR ''b'')"
  proof
    assume "\<exists>k\<ge>1. ''acb'' = replicate k CHR ''a'' @ replicate k CHR ''b''"
    then obtain k where "''acb'' = replicate k CHR ''a'' @ replicate k CHR ''b''" by blast
    then have "length ''acb'' = length (replicate k CHR ''a'' @ replicate k CHR ''b'')"
      by (rule arg_cong)
    then have "3 = k + k" by simp
    then show False by presburger
  qed
qed


section \<open>The pattern \<open>a^n b^n c^n\<close>\<close>

lemma str_mul_single: "str_mul [c] n = replicate n c"
  by (induction n) (simp_all add: str_mul_def)

lemma takeWhile_run: "P x \<Longrightarrow> takeWhile P (replicate n x @ ys) = replicate n x @ takeWhile P ys"
  by (induction n) simp_all

lemma dropWhile_run: "P x \<Longrightarrow> dropWhile P (replicate n x @ ys) = dropWhile P ys"
  by (induction n) simp_all

lemma takeWhile_stop: "\<not> P x \<Longrightarrow> 0 < n \<Longrightarrow> takeWhile P (replicate n x @ ys) = []"
  by (cases n) simp_all

lemma dropWhile_stop:
  "\<not> P x \<Longrightarrow> 0 < n \<Longrightarrow> dropWhile P (replicate n x @ ys) = replicate n x @ ys"
  by (cases n) simp_all

lemma match_blocks:
  assumes "0 < n"
  shows "match_a_plus_b_plus_c_plus
           (replicate n CHR ''a'' @ replicate n CHR ''b'' @ replicate n CHR ''c'') = Some n"
proof -
  let ?s = "replicate n CHR ''a'' @ replicate n CHR ''b'' @ replicate n CHR ''c''"
  have g1: "takeWhile (\<lambda>c. c = CHR ''a'') ?s = replicate n CHR ''a''"
    using assms by (simp add: takeWhile_run takeWhile_stop)
  have r1: "dropWhile (\<lambda>c. c = CHR ''a'') ?s = replicate n CHR ''b'' @ replicate n CHR ''c''"
    using assms by (simp add: dropWhile_run dropWhile_stop)
  have g2: "takeWhile (\<lambda>c. c = CHR ''b'') (replicate n CHR ''b'' @ replicate n CHR ''c'')
              = replicate n CHR ''b''"
    using assms takeWhile_stop [of "\<lambda>c. c = CHR ''b''" "CHR ''c''" n "[]"]
    by (simp add: takeWhile_run)
  have r2: "dropWhile (\<lambda>c. c = CHR ''b'') (replicate n CHR ''b'' @ replicate n CHR ''c'')
              = replicate n CHR ''c''"
    using assms dropWhile_stop [of "\<lambda>c. c = CHR ''b''" "CHR ''c''" n "[]"]
    by (simp add: dropWhile_run)
  have g3: "takeWhile (\<lambda>c. c = CHR ''c'') (replicate n CHR ''c'') = replicate n CHR ''c''"
    using takeWhile_run [of "\<lambda>c. c = CHR ''c''" "CHR ''c''" n "[]"] by simp
  have r3: "dropWhile (\<lambda>c. c = CHR ''c'') (replicate n CHR ''c'') = []"
    using dropWhile_run [of "\<lambda>c. c = CHR ''c''" "CHR ''c''" n "[]"] by simp
  show ?thesis
    unfolding match_a_plus_b_plus_c_plus_def Let_def g1 r1 g2 r2 g3 r3
    using assms by simp
qed

lemma match_positive: "match_a_plus_b_plus_c_plus s = Some n \<Longrightarrow> 0 < n"
  by (auto simp: match_a_plus_b_plus_c_plus_def Let_def split: if_splits)

text \<open>
  C7. For every string \<open>s\<close>, the oracle accepts \<open>s\<close> for the pattern \<open>a^n b^n c^n\<close> if and
  only if \<open>s\<close> is \<open>n\<close> times \<open>a\<close>, then \<open>n\<close> times \<open>b\<close>, then \<open>n\<close> times \<open>c\<close>, for some
  \<open>n \<ge> 1\<close>. The empty string is not accepted.
\<close>

theorem anbncn_membership:
  "(is_string_in_language s ''a^n b^n c^n'' \<longleftrightarrow>
      (\<exists>n\<ge>1. s = replicate n CHR ''a'' @ replicate n CHR ''b'' @ replicate n CHR ''c''))
   \<and> \<not> is_string_in_language [] ''a^n b^n c^n''"
proof
  show "is_string_in_language s ''a^n b^n c^n'' \<longleftrightarrow>
      (\<exists>n\<ge>1. s = replicate n CHR ''a'' @ replicate n CHR ''b'' @ replicate n CHR ''c'')"
  proof
    assume "is_string_in_language s ''a^n b^n c^n''"
    then obtain n where m: "match_a_plus_b_plus_c_plus s = Some n"
      and s: "s = str_mul ''a'' n @ str_mul ''b'' n @ str_mul ''c'' n"
      by (auto simp: is_string_in_language_def split: option.splits)
    from match_positive [OF m] have "1 \<le> n" by simp
    moreover from s have "s = replicate n CHR ''a'' @ replicate n CHR ''b'' @ replicate n CHR ''c''"
      by (simp add: str_mul_single)
    ultimately show "\<exists>n\<ge>1. s = replicate n CHR ''a'' @ replicate n CHR ''b'' @ replicate n CHR ''c''"
      by blast
  next
    assume "\<exists>n\<ge>1. s = replicate n CHR ''a'' @ replicate n CHR ''b'' @ replicate n CHR ''c''"
    then obtain n where n1: "1 \<le> n"
      and s: "s = replicate n CHR ''a'' @ replicate n CHR ''b'' @ replicate n CHR ''c''"
      by blast
    from n1 have n: "0 < n" by simp
    show "is_string_in_language s ''a^n b^n c^n''"
      unfolding s by (simp add: is_string_in_language_def match_blocks [OF n] str_mul_single)
  qed
  show "\<not> is_string_in_language [] ''a^n b^n c^n''"
    by (simp add: is_string_in_language_def match_a_plus_b_plus_c_plus_def)
qed

theorem anbncn_membership_witness:
  "is_string_in_language ''aabbcc'' ''a^n b^n c^n''
   \<and> \<not> is_string_in_language ''aabbc'' ''a^n b^n c^n''
   \<and> \<not> is_string_in_language [CHR ''a'', CHR ''b'', CHR ''c'', CHR 0x0A] ''a^n b^n c^n''"
proof -
  have "(1::nat) \<le> 2 \<and> ''aabbcc'' = replicate 2 CHR ''a'' @ replicate 2 CHR ''b'' @ replicate 2 CHR ''c''"
    by (simp add: numeral_2_eq_2)
  then have ex: "\<exists>n\<ge>1. ''aabbcc'' = replicate n CHR ''a'' @ replicate n CHR ''b'' @ replicate n CHR ''c''"
    by blast
  note T = anbncn_membership [of "''aabbcc''", THEN conjunct1]
  from T ex have r: "is_string_in_language ''aabbcc'' ''a^n b^n c^n''" by (rule iffD2)
  have r2: "\<not> is_string_in_language ''aabbc'' ''a^n b^n c^n''" by code_simp
  have r3: "\<not> is_string_in_language [CHR ''a'', CHR ''b'', CHR ''c'', CHR 0x0A] ''a^n b^n c^n''"
    by code_simp
  from r r2 r3 show ?thesis by (intro conjI)
qed

end
